theory Spec2Isabelle
  imports Complex_Main "HOL-Library.Word" "HOL-Library.Multiset"
begin

section \<open>Data model\<close>

text \<open>
  Timestamps, TTLs and chunk spans are Go \<^verbatim>\<open>uint32\<close> values: 32-bit words whose
  arithmetic wraps around.
\<close>

type_synonym uint32 = "32 word"

text \<open>\<^verbatim>\<open>const Month_sec = 60 * 60 * 24 * 28\<close>\<close>

definition Month_sec :: uint32 where
  "Month_sec = 60 * 60 * 24 * 28"

subsection \<open>Decimal rendering (the \<^verbatim>\<open>%d\<close> verb of \<^verbatim>\<open>fmt.Sprintf\<close>)\<close>

definition digit_char :: "nat \<Rightarrow> char" where
  "digit_char d = ''0123456789'' ! d"

function dec :: "nat \<Rightarrow> string" where
  "dec n = (if n < 10 then [digit_char n] else dec (n div 10) @ [digit_char (n mod 10)])"
  by pat_completeness auto
termination
  by (relation "measure id") auto

declare dec.simps [simp del]

text \<open>Reading a decimal numeral back; only used to show that \<open>dec\<close> is injective.\<close>

definition digit_val :: "char \<Rightarrow> nat" where
  "digit_val c = of_char c - 48"

definition undec :: "string \<Rightarrow> nat" where
  "undec s = foldl (\<lambda>a c. 10 * a + digit_val c) 0 s"

subsection \<open>Row keys\<close>

text \<open>
  \<^verbatim>\<open>row_key := fmt.Sprintf("%s_%d", key, t0/Month_sec)\<close> in \<^verbatim>\<open>insertChunk\<close> (and in
  the older \<^verbatim>\<open>InsertChunk\<close>); SearchTable builds its row keys with the same format.
\<close>

definition row_key :: "string \<Rightarrow> uint32 \<Rightarrow> string" where
  "row_key key t0 = key @ ''_'' @ dec (unat (t0 div Month_sec))"

section \<open>TTL-table router\<close>

text \<open>
  \<^verbatim>\<open>GetTTLTable\<close> computes in \<^verbatim>\<open>float64\<close>:
  \<^verbatim>\<open>uint32(math.Exp2(math.Floor(math.Log2(ttlUnits(ttl)))))\<close>.
  The model follows the same pipeline over the reals, extended by the one special value
  that arises: \<^verbatim>\<open>math.Log2(0) = -Inf\<close>, \<^verbatim>\<open>math.Floor(-Inf) = -Inf\<close>,
  \<^verbatim>\<open>math.Exp2(-Inf) = 0\<close>. The argument is never negative and never NaN, because it
  comes from a \<^verbatim>\<open>uint32\<close>. Rounding of the float operations is not modelled: for the
  quotients \<open>ttl / 3600\<close> of 32-bit values the nearest power of two is at relative
  distance at least \<open>2.3e-10\<close>, far above the \<open>1.2e-16\<close> precision of a
  \<^verbatim>\<open>float64\<close>, so the floor is the one of the exact logarithm.
\<close>

datatype f64 = NegInf | Fin real

text \<open>\<^verbatim>\<open>func ttlUnits(ttl uint32) float64 { return float64(ttl) / (60 * 60) }\<close>\<close>

definition ttlUnits :: "uint32 \<Rightarrow> real" where
  "ttlUnits ttl = real (unat ttl) / (60 * 60)"

definition Log2 :: "real \<Rightarrow> f64" where
  "Log2 x = (if x = 0 then NegInf else Fin (log 2 x))"

fun Floor :: "f64 \<Rightarrow> f64" where
  "Floor NegInf = NegInf"
| "Floor (Fin x) = Fin (of_int \<lfloor>x\<rfloor>)"

fun Exp2 :: "f64 \<Rightarrow> real" where
  "Exp2 NegInf = 0"
| "Exp2 (Fin x) = 2 powr x"

text \<open>The conversion \<^verbatim>\<open>uint32(f)\<close> of a non-negative float discards the fraction.\<close>

definition uint32_of_float :: "real \<Rightarrow> uint32" where
  "uint32_of_float x = word_of_int \<lfloor>x\<rfloor>"

definition preFactorWindow :: "uint32 \<Rightarrow> uint32" where
  "preFactorWindow ttl = uint32_of_float (Exp2 (Floor (Log2 (ttlUnits ttl))))"

text \<open>
  \<^verbatim>\<open>fmt.Sprintf(nameFormat, preFactorWindow)\<close> with one \<^verbatim>\<open>uint32\<close> operand, for format
  strings built from literal text, \<^verbatim>\<open>%d\<close> and \<^verbatim>\<open>%%\<close> (the repository's format is
  \<^verbatim>\<open>metric_%d\<close>). The flag records whether the operand has been consumed: a second
  \<^verbatim>\<open>%d\<close> prints \<^verbatim>\<open>%!d(MISSING)\<close>, an unused operand is reported at the end, a lone
  trailing percent sign prints \<^verbatim>\<open>%!(NOVERB)\<close>. Other verbs and flags are outside this
  fragment and are copied unchanged.
\<close>

fun Sprintf_go :: "bool \<Rightarrow> string \<Rightarrow> nat \<Rightarrow> string" where
  "Sprintf_go used [] n = (if used then [] else ''%!(EXTRA uint32='' @ dec n @ '')'')"
| "Sprintf_go used [c] n =
     (if c = CHR ''%'' then ''%!(NOVERB)'' @ Sprintf_go used [] n else c # Sprintf_go used [] n)"
| "Sprintf_go used (c # v # rest) n =
     (if c \<noteq> CHR ''%'' then c # Sprintf_go used (v # rest) n
      else if v = CHR ''%'' then CHR ''%'' # Sprintf_go used rest n
      else if v = CHR ''d'' then (if used then ''%!d(MISSING)'' else dec n) @ Sprintf_go True rest n
      else c # v # Sprintf_go used rest n)"

definition Sprintf :: "string \<Rightarrow> uint32 \<Rightarrow> string" where
  "Sprintf format a = Sprintf_go False format (unat a)"

text \<open>Run-time panics of the Go code are values of the model.\<close>

datatype panic = DivideByZero | ChunkSpanInvalid

record ttlTable =
  Table :: string
  WindowSize :: uint32

text \<open>
  The window factor is a Go \<^verbatim>\<open>int\<close>; \<^verbatim>\<open>uint32(windowFactor)\<close> keeps its low 32 bits.
\<close>

definition uint32_of_int :: "int \<Rightarrow> uint32" where
  "uint32_of_int i = word_of_int i"

text \<open>
  \<^verbatim>\<open>GetTTLTable\<close>: the table name is formatted first; the integer division
  \<^verbatim>\<open>preFactorWindow/uint32(windowFactor)\<close> panics when the divisor is zero.
\<close>

definition GetTTLTable :: "uint32 \<Rightarrow> int \<Rightarrow> string \<Rightarrow> panic + ttlTable" where
  "GetTTLTable ttl windowFactor nameFormat =
     (let pfw = preFactorWindow ttl;
          tableName = Sprintf nameFormat pfw
      in if uint32_of_int windowFactor = 0 then Inl DivideByZero
         else Inr \<lparr>Table = tableName, WindowSize = pfw div uint32_of_int windowFactor + 1\<rparr>)"

text \<open>\<^verbatim>\<open>const Table_name_format = `metric_%d`\<close>\<close>

definition Table_name_format :: string where
  "Table_name_format = ''metric_%d''"

section \<open>Search: the queried months\<close>

text \<open>
  The loop of \<^verbatim>\<open>SearchTable\<close> that collects the row keys:
  \<^verbatim>\<open>for month := start_month; month <= end_month; month += Month_sec { rowKeys = append(rowKeys, fmt.Sprintf("%s_%d", key, month/Month_sec)) }\<close>.
  The counter is a \<^verbatim>\<open>uint32\<close>, so \<^verbatim>\<open>month += Month_sec\<close> wraps around; the loop is
  therefore not structurally terminating, and running forever would be the value \<open>None\<close>.
\<close>

partial_function (option) rowKeys_loop ::
  "string \<Rightarrow> uint32 \<Rightarrow> uint32 \<Rightarrow> string list \<Rightarrow> string list option" where
  "rowKeys_loop key month end_month rowKeys =
     (if month \<le> end_month
      then rowKeys_loop key (month + Month_sec) end_month (rowKeys @ [row_key key month])
      else Some rowKeys)"

text \<open>\<^verbatim>\<open>start_month := start - (start % Month_sec)\<close>\<close>

definition start_month_of :: "uint32 \<Rightarrow> uint32" where
  "start_month_of start = start - (start mod Month_sec)"

text \<open>\<^verbatim>\<open>end_month := (end - 1) - ((end - 1) % Month_sec)\<close>\<close>

definition end_month_of :: "uint32 \<Rightarrow> uint32" where
  "end_month_of endTs = (endTs - 1) - ((endTs - 1) mod Month_sec)"

definition rowKeys_of :: "string \<Rightarrow> uint32 \<Rightarrow> uint32 \<Rightarrow> string list option" where
  "rowKeys_of key start endTs =
     rowKeys_loop key (start_month_of start) (end_month_of endTs) []"

text \<open>The start of month number \<open>i\<close> as a 32-bit word (used in the proofs only).\<close>

definition month_word :: "nat \<Rightarrow> uint32" where
  "month_word i = of_nat (i * 2419200)"

section \<open>Search: read queue, worker and result\<close>

type_synonym byte = "8 word"

text \<open>
  The error values of the store (\<^verbatim>\<open>errChunkTooSmall\<close> ... \<^verbatim>\<open>errCtxCanceled\<close>), the two
  context errors that \<^verbatim>\<open>Iter.Close\<close> may return, the decode errors of the chunk package,
  and any other error of the database driver.
\<close>

datatype error =
    errChunkTooSmall | errInvalidRange | errReadQueueFull | errReadTooOld | errTableNotFound
  | errCtxCanceled | contextCanceled | contextDeadlineExceeded
  | errUnknownFormat | errUnknownSpanCode | errStorage string

text \<open>
  Modelled from the spec: the iterator generator of package \<^verbatim>\<open>chunk\<close> is not among the
  sources. It is parameterised by the chunk's \<open>T0\<close> and carries the payload of the frame.
\<close>

record IterGen =
  B :: "byte list"
  T0 :: uint32
  Span :: uint32

text \<open>
  Modelled from the spec: \<^verbatim>\<open>chunk.NewGen\<close> (the frame decoder) is not among the sources.
  It validates that the frame has at least 2 bytes and that byte 0 is the format
  \<open>StandardGoTszWithSpan = 1\<close>, looks byte 1 up in the static table of spans (absent too,
  hence the parameter \<open>ChunkSpans\<close>), and returns a generator for the given \<open>t0\<close>.
\<close>

definition NewGen :: "uint32 list \<Rightarrow> byte list \<Rightarrow> uint32 \<Rightarrow> error + IterGen" where
  "NewGen ChunkSpans b ts =
     (if length b < 2 then Inl errChunkTooSmall
      else if b ! 0 \<noteq> 1 then Inl errUnknownFormat
      else if length ChunkSpans \<le> unat (b ! 1) then Inl errUnknownSpanCode
      else Inr \<lparr>B = drop 2 b, T0 = ts, Span = ChunkSpans ! unat (b ! 1)\<rparr>)"

text \<open>
  Modelled from the spec: \<^verbatim>\<open>sort.Sort(chunk.IterGensAsc(itgens))\<close> sorts by ascending
  \<open>T0\<close>; the comparison of \<^verbatim>\<open>IterGensAsc\<close> is not among the sources. Go's sort is not
  stable, so the order among generators of equal \<open>T0\<close> is not determined by the code; the
  sequence of \<open>T0\<close> values is.
\<close>

definition IterGensAsc_sort :: "IterGen list \<Rightarrow> IterGen list" where
  "IterGensAsc_sort itgens = sort_key T0 itgens"

text \<open>
  The iterator a query returns: the rows \<open>(ts, data)\<close> that \<^verbatim>\<open>Scan\<close> delivers, in scan
  order, and the error of \<^verbatim>\<open>Close\<close>. The session is the database: it maps the query
  text and its two parameters (row keys, end) to an iterator.
\<close>

record Iter =
  rows :: "(int \<times> byte list) list"
  close_err :: "error option"

type_synonym session = "string \<Rightarrow> string list \<Rightarrow> uint32 \<Rightarrow> Iter"

text \<open>
  \<^verbatim>\<open>SearchTable\<close> and the worker of \<^verbatim>\<open>processReadQueue\<close> run concurrently and meet at
  two \<^verbatim>\<open>select\<close> statements and one cancellation check. A schedule records what each of
  them observes:
  \<^item> at the first \<^verbatim>\<open>select\<close> of \<^verbatim>\<open>SearchTable\<close>: whether the context is done, whether the
    read queue has room, and which case Go picks when both are ready;
  \<^item> when a worker takes the request from the queue: whether the context is done, and
    whether the request has waited longer than \<^verbatim>\<open>omitReadTimeout\<close>;
  \<^item> at the second \<^verbatim>\<open>select\<close>: whether the context is done, whether the worker's reply has
    arrived, and which case Go picks when both are ready.
  A worker is assumed to exist, so a request in the queue is eventually taken.
\<close>

record sched =
  ctx_done_at_enqueue :: bool
  queue_has_room :: bool
  enqueue_pick_done :: bool
  ctx_done_at_dequeue :: bool
  wait_too_long :: bool
  ctx_done_at_receive :: bool
  reply_ready :: bool
  receive_pick_done :: bool

text \<open>
  \<^verbatim>\<open>select { case <-ctx.Done(): return nil, nil; case c.readQueue <- &crr: ; default: ... errReadQueueFull }\<close>:
  a ready case is taken, at random among the ready ones; \<^verbatim>\<open>default\<close> only when none is.
\<close>

datatype enqueue_outcome = CtxDoneBeforeEnqueue | Enqueued | QueueFull

definition first_select :: "sched \<Rightarrow> enqueue_outcome" where
  "first_select s =
     (if ctx_done_at_enqueue s \<and> queue_has_room s
      then (if enqueue_pick_done s then CtxDoneBeforeEnqueue else Enqueued)
      else if ctx_done_at_enqueue s then CtxDoneBeforeEnqueue
      else if queue_has_room s then Enqueued
      else QueueFull)"

record ChunkReadRequest =
  q :: string
  p_rowKeys :: "string list"
  p_end :: uint32

text \<open>
  One request in \<^verbatim>\<open>processReadQueue\<close>: the reply sent on \<^verbatim>\<open>crr.out\<close> and the number of
  queries executed on the session.
\<close>

definition processReadQueue ::
  "sched \<Rightarrow> session \<Rightarrow> ChunkReadRequest \<Rightarrow> (error + Iter) \<times> nat" where
  "processReadQueue s sess crr =
     (if ctx_done_at_dequeue s then (Inl errCtxCanceled, 0)
      else if wait_too_long s then (Inl errReadTooOld, 0)
      else (Inr (sess (q crr) (p_rowKeys crr) (p_end crr)), 1))"

text \<open>
  \<^verbatim>\<open>select { case <-ctx.Done(): return nil, nil; case res = <-results: ... }\<close>: it blocks
  until a case is ready; the reply can be received once the worker has sent it.
\<close>

datatype receive_outcome = CtxDoneBeforeResult | Received

definition second_select :: "sched \<Rightarrow> receive_outcome" where
  "second_select s =
     (if ctx_done_at_receive s \<and> (\<not> reply_ready s \<or> receive_pick_done s)
      then CtxDoneBeforeResult else Received)"

text \<open>
  \<^verbatim>\<open>for res.i.Scan(&ts, &b) { ... itgens = append(itgens, *itgen) }\<close>: a frame shorter
  than 2 bytes or a decode error ends the search with the generators collected so far.
\<close>

fun scan_rows ::
  "uint32 list \<Rightarrow> (int \<times> byte list) list \<Rightarrow> IterGen list \<Rightarrow> IterGen list \<times> error option" where
  "scan_rows spans [] itgens = (itgens, None)"
| "scan_rows spans ((ts, b) # rest) itgens =
     (if length b < 2 then (itgens, Some errChunkTooSmall)
      else case NewGen spans b (uint32_of_int ts) of
             Inl e \<Rightarrow> (itgens, Some e)
           | Inr itgen \<Rightarrow> scan_rows spans rest (itgens @ [itgen]))"

text \<open>The scan, \<^verbatim>\<open>res.i.Close()\<close> and the final sort (lines 582 to 619 of the store).\<close>

definition collect_itgens :: "uint32 list \<Rightarrow> Iter \<Rightarrow> IterGen list \<times> error option" where
  "collect_itgens spans it =
     (case scan_rows spans (rows it) [] of
        (gens, Some e) \<Rightarrow> (gens, Some e)
      | (gens, None) \<Rightarrow>
          (case close_err it of
             Some e \<Rightarrow>
               (if e = contextCanceled \<or> e = contextDeadlineExceeded then ([], None)
                else ([], Some e))
           | None \<Rightarrow> (IterGensAsc_sort gens, None)))"

definition query_text :: "string \<Rightarrow> string" where
  "query_text table = ''SELECT ts, data FROM '' @ table @ '' WHERE key IN ? AND ts < ?''"

text \<open>
  What \<^verbatim>\<open>SearchTable\<close> returns, and how many queries the worker executed for it.
\<close>

record search_result =
  itgens :: "IterGen list"
  err :: "error option"
  queries :: nat

text \<open>
  \<^verbatim>\<open>SearchTable\<close>. \<open>None\<close> would mean that the row-key loop never ends.
\<close>

definition SearchTable ::
  "uint32 list \<Rightarrow> sched \<Rightarrow> session \<Rightarrow> string \<Rightarrow> string \<Rightarrow> uint32 \<Rightarrow> uint32 \<Rightarrow>
   search_result option" where
  "SearchTable spans s sess key table start endTs =
     (if endTs \<le> start then Some \<lparr>itgens = [], err = Some errInvalidRange, queries = 0\<rparr>
      else case rowKeys_of key start endTs of
        None \<Rightarrow> None
      | Some rowKeys \<Rightarrow>
          (let crr = \<lparr>q = query_text table, p_rowKeys = rowKeys, p_end = endTs\<rparr>
           in case first_select s of
                CtxDoneBeforeEnqueue \<Rightarrow> Some \<lparr>itgens = [], err = None, queries = 0\<rparr>
              | QueueFull \<Rightarrow> Some \<lparr>itgens = [], err = Some errReadQueueFull, queries = 0\<rparr>
              | Enqueued \<Rightarrow>
                  (case processReadQueue s sess crr of (res, n) \<Rightarrow>
                    (case second_select s of
                       CtxDoneBeforeResult \<Rightarrow> Some \<lparr>itgens = [], err = None, queries = n\<rparr>
                     | Received \<Rightarrow>
                         (case res of
                            Inl e \<Rightarrow>
                              (if e = errCtxCanceled
                               then Some \<lparr>itgens = [], err = None, queries = n\<rparr>
                               else Some \<lparr>itgens = [], err = Some e, queries = n\<rparr>)
                          | Inr it \<Rightarrow>
                              (case collect_itgens spans it of (gens, e) \<Rightarrow>
                                 Some \<lparr>itgens = gens, err = e, queries = n\<rparr>))))))"

text \<open>Notions used in the statements and proofs about the search.\<close>

definition row_T0 :: "int \<times> byte list \<Rightarrow> uint32" where
  "row_T0 r = uint32_of_int (fst r)"

definition row_ok :: "uint32 list \<Rightarrow> int \<times> byte list \<Rightarrow> bool" where
  "row_ok spans r =
     (case NewGen spans (snd r) (uint32_of_int (fst r)) of Inl _ \<Rightarrow> False | Inr _ \<Rightarrow> True)"

definition scans_rows :: "sched \<Rightarrow> bool" where
  "scans_rows s \<longleftrightarrow>
     first_select s = Enqueued \<and> second_select s = Received \<and>
     \<not> ctx_done_at_dequeue s \<and> \<not> wait_too_long s"

definition row_gen :: "uint32 list \<Rightarrow> int \<times> byte list \<Rightarrow> IterGen" where
  "row_gen spans r =
     \<lparr>B = drop 2 (snd r), T0 = uint32_of_int (fst r), Span = spans ! unat (snd r ! 1)\<rparr>"

subsection \<open>The chunk tables\<close>

text \<open>
  The tables the chunks are written to and read from. Their schema
  (\<^verbatim>\<open>table_schema\<close> in \<^verbatim>\<open>aggmetrics.go\<close>) is
  \<^verbatim>\<open>key ascii, ts int, data blob, PRIMARY KEY (key, ts)\<close>: a table holds at most one row
  for each pair of a row key and a timestamp, so it is a partial map from that pair to the
  data. The column \<^verbatim>\<open>ts\<close> is a CQL \<^verbatim>\<open>int\<close>, a signed 32-bit number; it holds the bits of
  the \<^verbatim>\<open>uint32\<close> it was given. The database maps each table name to its table.
\<close>

type_synonym cql_table = "(string \<times> uint32) \<rightharpoonup> byte list"

type_synonym database = "string \<Rightarrow> cql_table"

text \<open>
  What changes a table: the statement of \<^verbatim>\<open>insertChunk\<close> (and of the older
  \<^verbatim>\<open>InsertChunk\<close>),
  \<^verbatim>\<open>INSERT INTO table (key, ts, data) values(?,?,?) USING TTL ttl\<close> with the parameters
  \<^verbatim>\<open>row_key, t0, data\<close>, which writes the row with this primary key; and the expiry of a
  row at the end of its TTL. The state of the database is given by the events that the
  database has applied, oldest first.
\<close>

datatype db_event =
    ChunkInserted string string uint32 "byte list"
  | RowExpired string string uint32

fun apply_event :: "database \<Rightarrow> db_event \<Rightarrow> database" where
  "apply_event db (ChunkInserted table key t0 data) =
     db(table := (db table)((row_key key t0, t0) \<mapsto> data))"
| "apply_event db (RowExpired table k ts) = db(table := (db table)((k, ts) := None))"

definition database_after :: "db_event list \<Rightarrow> database" where
  "database_after evs = foldl apply_event (\<lambda>table. Map.empty) evs"

text \<open>
  The table named in a query \<^verbatim>\<open>SELECT ts, data FROM table WHERE key IN ? AND ts < ?\<close>.
\<close>

definition query_table :: "string \<Rightarrow> string option" where
  "query_table qs =
     (let pre = ''SELECT ts, data FROM ''; suf = '' WHERE key IN ? AND ts < ?'';
          table = take (length qs - length pre - length suf) (drop (length pre) qs)
      in if qs = pre @ table @ suf then Some table else None)"

text \<open>
  The rows that answer this query. The list \<open>scan\<close> gives the order in which the database
  visits the primary keys (the query has no \<^verbatim>\<open>ORDER BY\<close>, and the partitions of an
  \<^verbatim>\<open>IN\<close> restriction may be read in any order). A visited row is delivered when its key
  is among the row keys of the query and its \<^verbatim>\<open>ts\<close> is below the bound, compared as
  signed numbers; it is delivered once, also when its key is listed more than once.
  \<^verbatim>\<open>Scan\<close> stores \<^verbatim>\<open>ts\<close> in a Go \<^verbatim>\<open>int\<close>.
\<close>

definition select_rows ::
  "cql_table \<Rightarrow> (string \<times> uint32) list \<Rightarrow> string list \<Rightarrow> uint32 \<Rightarrow> (int \<times> byte list) list" where
  "select_rows tbl scan ks e =
     List.map_filter
       (\<lambda>(k, ts). if k \<in> set ks \<and> sint ts < sint e
                  then map_option (Pair (sint ts)) (tbl (k, ts)) else None)
       scan"

text \<open>
  The session on a database in a given state: it answers the query of \<^verbatim>\<open>SearchTable\<close>
  with the selected rows, and \<^verbatim>\<open>Close\<close> returns \<open>ce\<close>.
\<close>

definition cassandra :: "database \<Rightarrow> (string \<times> uint32) list \<Rightarrow> error option \<Rightarrow> session" where
  "cassandra db scan ce qs ks e =
     (case query_table qs of
        None \<Rightarrow> \<lparr>rows = [], close_err = Some (errStorage ''invalid query'')\<rparr>
      | Some table \<Rightarrow> \<lparr>rows = select_rows (db table) scan ks e, close_err = ce\<rparr>)"

text \<open>
  Concrete inputs for the examples: a schedule without cancellation; a store for the
  metric \<open>foo\<close> with one chunk in each of the months 0 and 1 that serves the later partition
  first; and a database into which three chunks were inserted, two of \<open>foo\<close> and one of
  \<open>bar\<close>, with an order in which it visits their rows.
\<close>

definition sched_idle :: sched where
  "sched_idle = \<lparr>ctx_done_at_enqueue = False, queue_has_room = True, enqueue_pick_done = False,
     ctx_done_at_dequeue = False, wait_too_long = False, ctx_done_at_receive = False,
     reply_ready = True, receive_pick_done = False\<rparr>"

definition store_two :: session where
  "store_two qs ks e =
     \<lparr>rows = concat (map (\<lambda>k. if k = ''foo_0'' then [(600, [1, 3, 9])]
                                else if k = ''foo_1'' then [(2419200, [1, 3, 7])] else []) (rev ks)),
      close_err = None\<rparr>"

definition ex_events :: "db_event list" where
  "ex_events = [ChunkInserted ''metric_1'' ''foo'' 2419200 [1, 3, 7],
                ChunkInserted ''metric_1'' ''foo'' 600 [1, 3, 9],
                ChunkInserted ''metric_1'' ''bar'' 600 [1, 3, 5]]"

definition ex_scan :: "(string \<times> uint32) list" where
  "ex_scan = [(''foo_1'', 2419200), (''bar_0'', 600), (''foo_0'', 600)]"

section \<open>Writer worker\<close>

text \<open>
  The fields of \<^verbatim>\<open>mdata.ChunkWriteRequest\<close> that \<^verbatim>\<open>processWriteQueue\<close> reads (the type
  is declared outside the sources): the key string, the chunk's \<open>T0\<close> and series bytes,
  the TTL and the span.
\<close>

record ChunkWriteRequest =
  Key :: string
  ChunkT0 :: uint32
  ChunkSeries :: "byte list"
  TTL :: uint32
  ChunkSpan :: uint32

text \<open>
  \<^verbatim>\<open>PrepareChunkData\<close>: the format byte (\<open>FormatStandardGoTszWithSpan = 1\<close>), the span
  code, the data. The table \<^verbatim>\<open>chunk.RevChunkSpans\<close> is not among the sources and is a
  parameter; a span that is not in it makes the function panic (\<open>None\<close>).
\<close>

definition PrepareChunkData ::
  "(uint32 \<rightharpoonup> byte) \<Rightarrow> uint32 \<Rightarrow> byte list \<Rightarrow> byte list option" where
  "PrepareChunkData RevChunkSpans spn data =
     (case RevChunkSpans spn of
        None \<Rightarrow> None
      | Some spanCode \<Rightarrow> Some (1 # spanCode # data))"

text \<open>
  What the storage answers to the successive calls of \<^verbatim>\<open>insertChunk\<close> for one request:
  the outcome of call number \<open>i\<close> (from 0), \<open>None\<close> for \<^verbatim>\<open>err == nil\<close>. This is where
  failures are injected.
\<close>

type_synonym insert_outcomes = "nat \<Rightarrow> error option"

text \<open>
  The counter \<^verbatim>\<open>attempts\<close> and the variable \<^verbatim>\<open>sleepTime\<close> are Go \<^verbatim>\<open>int\<close>s, and a
  \<^verbatim>\<open>time.Duration\<close> is an \<^verbatim>\<open>int64\<close> of nanoseconds. On the 64-bit platforms the store
  runs on, \<^verbatim>\<open>int\<close> is 64 bits wide too: both are 64-bit words, read as signed numbers,
  whose arithmetic wraps around. \<^verbatim>\<open>time.Millisecond\<close> is \<open>1000000\<close> nanoseconds.
\<close>

type_synonym go_int = "64 word"

definition Millisecond :: go_int where
  "Millisecond = 1000000"

text \<open>
  The observable effects of the worker: the calls of \<^verbatim>\<open>insertChunk\<close>, the successful
  inserts, the calls of \<^verbatim>\<open>SyncChunkSaveState\<close> and \<^verbatim>\<open>SendPersistMessage\<close>, the durations
  passed to \<^verbatim>\<open>time.Sleep\<close> (in nanoseconds), and how often each of the two counters is
  incremented. Log lines and latency metrics are left out.
\<close>

record writer_log =
  insert_calls :: nat
  inserted :: "(string \<times> uint32 \<times> uint32 \<times> byte list) list"
  synced :: "uint32 list"
  persist_msgs :: "(string \<times> uint32) list"
  sleeps_ns :: "int list"
  chunkSaveOk :: nat
  chunkSaveFail :: nat

definition writer_log_empty :: writer_log where
  "writer_log_empty = \<lparr>insert_calls = 0, inserted = [], synced = [], persist_msgs = [],
     sleeps_ns = [], chunkSaveOk = 0, chunkSaveFail = 0\<rparr>"

text \<open>
  The argument of \<^verbatim>\<open>time.Sleep\<close> in the failure branch:
  \<^verbatim>\<open>sleepTime := 100 * attempts; if sleepTime > 2000 { sleepTime = 2000 }; time.Sleep(time.Duration(sleepTime) * time.Millisecond)\<close>.
\<close>

definition sleepDuration :: "go_int \<Rightarrow> int" where
  "sleepDuration attempts =
     (let sleepTime = 100 * attempts;
          sleepTime = (if 2000 < sint sleepTime then 2000 else sleepTime)
      in sint (sleepTime * Millisecond))"

text \<open>
  The loop \<^verbatim>\<open>for !success { err := c.insertChunk(keyStr, cwr.Chunk.T0, cwr.TTL, buf) ... }\<close>.
  It has no exit but a successful insert, so it may run forever: that is the value
  \<open>None\<close>.
\<close>

partial_function (option) retry_loop ::
  "insert_outcomes \<Rightarrow> string \<Rightarrow> uint32 \<Rightarrow> uint32 \<Rightarrow> byte list \<Rightarrow> go_int \<Rightarrow> writer_log \<Rightarrow>
   writer_log option" where
  "retry_loop insertChunk keyStr t0 ttl buf attempts lg =
     (case insertChunk (insert_calls lg) of
        None \<Rightarrow>
          Some (lg\<lparr>insert_calls := insert_calls lg + 1,
                   inserted := inserted lg @ [(keyStr, t0, ttl, buf)],
                   synced := synced lg @ [t0],
                   persist_msgs := persist_msgs lg @ [(keyStr, t0)],
                   chunkSaveOk := chunkSaveOk lg + 1\<rparr>)
      | Some e \<Rightarrow>
          retry_loop insertChunk keyStr t0 ttl buf (attempts + 1)
            (lg\<lparr>insert_calls := insert_calls lg + 1,
                chunkSaveFail := chunkSaveFail lg + 1,
                sleeps_ns := sleeps_ns lg @ [sleepDuration attempts]\<rparr>))"

text \<open>
  The body of \<^verbatim>\<open>case cwr := <-queue\<close> in \<^verbatim>\<open>processWriteQueue\<close>: encode the frame (a span
  that is not registered makes \<^verbatim>\<open>PrepareChunkData\<close> panic), then retry, from
  \<^verbatim>\<open>attempts := 0\<close>, until the insert succeeds.
\<close>

definition write_chunk ::
  "(uint32 \<rightharpoonup> byte) \<Rightarrow> insert_outcomes \<Rightarrow> ChunkWriteRequest \<Rightarrow> writer_log \<Rightarrow>
   panic + writer_log option" where
  "write_chunk RevChunkSpans insertChunk cwr lg =
     (case PrepareChunkData RevChunkSpans (ChunkSpan cwr) (ChunkSeries cwr) of
        None \<Rightarrow> Inl ChunkSpanInvalid
      | Some buf \<Rightarrow> Inr (retry_loop insertChunk (Key cwr) (ChunkT0 cwr) (TTL cwr) buf 0 lg))"

text \<open>
  Concrete inputs for the examples: a write request, a table of span codes, and a
  storage whose first \<open>n\<close> inserts fail.
\<close>

definition ex_cwr :: ChunkWriteRequest where
  "ex_cwr = \<lparr>Key = ''foo'', ChunkT0 = 600, ChunkSeries = [7], TTL = 3600, ChunkSpan = 600\<rparr>"

definition ex_RevChunkSpans :: "uint32 \<rightharpoonup> byte" where
  "ex_RevChunkSpans = [60 \<mapsto> 0, 120 \<mapsto> 1, 300 \<mapsto> 2, 600 \<mapsto> 3]"

definition fails_first :: "nat \<Rightarrow> insert_outcomes" where
  "fails_first n i = (if i < n then Some (errStorage ''timeout'') else None)"

section \<open>Binary request envelopes\<close>

text \<open>
  The envelopes are encoded with the MessagePack primitives of the library
  \<^verbatim>\<open>github.com/tinylib/msgp\<close>, which is not part of the repository. The primitives are
  modelled after the MessagePack wire format as that library writes and reads it; the
  generated methods in \<^verbatim>\<open>graphite_gen.go\<close> are modelled from the source.

  A Go string is a sequence of bytes. A Go \<^verbatim>\<open>int\<close> and an \<^verbatim>\<open>int64\<close> are 64-bit two's
  complement words (\<^verbatim>\<open>msgp.AppendInt\<close> is \<^verbatim>\<open>AppendInt64\<close> and \<^verbatim>\<open>ReadIntBytes\<close> is
  \<^verbatim>\<open>ReadInt64Bytes\<close> on 64-bit platforms). Slices are lists and Go maps are finite maps, so
  a nil slice or map and an empty one are the same value.
\<close>

type_synonym gostring = "byte list"
type_synonym int64 = "64 word"

datatype msgp_error = ErrShortBytes | TypeError byte | UintOverflow | SkipError

text \<open>Big-endian byte sequences of fixed width, unsigned and two's complement.\<close>

definition byte_of_nat :: "nat \<Rightarrow> byte" where
  "byte_of_nat n = of_nat n"

primrec be_bytes :: "nat \<Rightarrow> nat \<Rightarrow> byte list" where
  "be_bytes 0 v = []"
| "be_bytes (Suc n) v = be_bytes n (v div 256) @ [byte_of_nat (v mod 256)]"

definition be_value :: "byte list \<Rightarrow> nat" where
  "be_value bs = foldl (\<lambda>a b. a * 256 + unat b) 0 bs"

definition be_int :: "nat \<Rightarrow> int \<Rightarrow> byte list" where
  "be_int n i = be_bytes n (nat (i mod 256 ^ n))"

definition be_sint :: "nat \<Rightarrow> byte list \<Rightarrow> int" where
  "be_sint n bs =
     (if 2 ^ (8 * n - 1) \<le> be_value bs then int (be_value bs) - 2 ^ (8 * n) else int (be_value bs))"

text \<open>Reading \<open>n\<close> bytes as a big-endian number, and reading \<open>n\<close> bytes as they are.\<close>

definition read_be :: "nat \<Rightarrow> byte list \<Rightarrow> msgp_error + nat \<times> byte list" where
  "read_be n b = (if length b < n then Inl ErrShortBytes else Inr (be_value (take n b), drop n b))"

definition read_sized :: "nat \<Rightarrow> byte list \<Rightarrow> msgp_error + byte list \<times> byte list" where
  "read_sized n b = (if length b < n then Inl ErrShortBytes else Inr (take n b, drop n b))"

text \<open>
  Map and array headers: fixmap \<open>0x80 + n\<close> and fixarray \<open>0x90 + n\<close> up to 15 entries,
  map16 \<open>0xde\<close> / array16 \<open>0xdc\<close> up to 65535, map32 \<open>0xdf\<close> / array32 \<open>0xdd\<close> otherwise.
  The size argument is a \<^verbatim>\<open>uint32\<close>.
\<close>

definition AppendMapHeader :: "byte list \<Rightarrow> nat \<Rightarrow> byte list" where
  "AppendMapHeader b sz =
     (if sz \<le> 15 then b @ [byte_of_nat (128 + sz)]
      else if sz \<le> 65535 then b @ byte_of_nat 222 # be_bytes 2 sz
      else b @ byte_of_nat 223 # be_bytes 4 sz)"

definition ReadMapHeaderBytes :: "byte list \<Rightarrow> msgp_error + nat \<times> byte list" where
  "ReadMapHeaderBytes b =
     (case b of
        [] \<Rightarrow> Inl ErrShortBytes
      | lead # rest \<Rightarrow>
          if 128 \<le> unat lead \<and> unat lead \<le> 143 then Inr (unat lead - 128, rest)
          else if unat lead = 222 then read_be 2 rest
          else if unat lead = 223 then read_be 4 rest
          else Inl (TypeError lead))"

definition AppendArrayHeader :: "byte list \<Rightarrow> nat \<Rightarrow> byte list" where
  "AppendArrayHeader b sz =
     (if sz \<le> 15 then b @ [byte_of_nat (144 + sz)]
      else if sz \<le> 65535 then b @ byte_of_nat 220 # be_bytes 2 sz
      else b @ byte_of_nat 221 # be_bytes 4 sz)"

definition ReadArrayHeaderBytes :: "byte list \<Rightarrow> msgp_error + nat \<times> byte list" where
  "ReadArrayHeaderBytes b =
     (case b of
        [] \<Rightarrow> Inl ErrShortBytes
      | lead # rest \<Rightarrow>
          if 144 \<le> unat lead \<and> unat lead \<le> 159 then Inr (unat lead - 144, rest)
          else if unat lead = 220 then read_be 2 rest
          else if unat lead = 221 then read_be 4 rest
          else Inl (TypeError lead))"

text \<open>
  Strings: fixstr \<open>0xa0 + n\<close> up to 31 bytes, str8 \<open>0xd9\<close>, str16 \<open>0xda\<close>, str32 \<open>0xdb\<close>
  with the length converted to \<^verbatim>\<open>uint32\<close>.
\<close>

definition AppendString :: "byte list \<Rightarrow> gostring \<Rightarrow> byte list" where
  "AppendString b s =
     (let sz = length s in
      if sz \<le> 31 then b @ byte_of_nat (160 + sz) # s
      else if sz \<le> 255 then b @ byte_of_nat 217 # be_bytes 1 sz @ s
      else if sz \<le> 65535 then b @ byte_of_nat 218 # be_bytes 2 sz @ s
      else b @ byte_of_nat 219 # be_bytes 4 (sz mod 2 ^ 32) @ s)"

definition read_prefixed :: "nat \<Rightarrow> byte list \<Rightarrow> msgp_error + byte list \<times> byte list" where
  "read_prefixed n b =
     (case read_be n b of Inl e \<Rightarrow> Inl e | Inr (sz, rest) \<Rightarrow> read_sized sz rest)"

definition ReadStringBytes :: "byte list \<Rightarrow> msgp_error + gostring \<times> byte list" where
  "ReadStringBytes b =
     (case b of
        [] \<Rightarrow> Inl ErrShortBytes
      | lead # rest \<Rightarrow>
          if 160 \<le> unat lead \<and> unat lead \<le> 191 then read_sized (unat lead - 160) rest
          else if unat lead = 217 then read_prefixed 1 rest
          else if unat lead = 218 then read_prefixed 2 rest
          else if unat lead = 219 then read_prefixed 4 rest
          else Inl (TypeError lead))"

text \<open>
  \<^verbatim>\<open>ReadMapKeyZC\<close> reads a string and, when the object is of the bin family
  (\<open>0xc4\<close>, \<open>0xc5\<close>, \<open>0xc6\<close>), reads it as bytes instead.
\<close>

definition ReadBytesZC :: "byte list \<Rightarrow> msgp_error + byte list \<times> byte list" where
  "ReadBytesZC b =
     (case b of
        [] \<Rightarrow> Inl ErrShortBytes
      | lead # rest \<Rightarrow>
          if unat lead = 196 then read_prefixed 1 rest
          else if unat lead = 197 then read_prefixed 2 rest
          else if unat lead = 198 then read_prefixed 4 rest
          else Inl (TypeError lead))"

definition ReadMapKeyZC :: "byte list \<Rightarrow> msgp_error + byte list \<times> byte list" where
  "ReadMapKeyZC b =
     (case ReadStringBytes b of
        Inr r \<Rightarrow> Inr r
      | Inl e \<Rightarrow>
          (case e of
             TypeError lead \<Rightarrow>
               if unat lead = 196 \<or> unat lead = 197 \<or> unat lead = 198 then ReadBytesZC b
               else Inl e
           | _ \<Rightarrow> Inl e))"

text \<open>Booleans: \<open>0xc3\<close> is true, \<open>0xc2\<close> is false.\<close>

definition AppendBool :: "byte list \<Rightarrow> bool \<Rightarrow> byte list" where
  "AppendBool b v = (if v then b @ [byte_of_nat 195] else b @ [byte_of_nat 194])"

definition ReadBoolBytes :: "byte list \<Rightarrow> msgp_error + bool \<times> byte list" where
  "ReadBoolBytes b =
     (case b of
        [] \<Rightarrow> Inl ErrShortBytes
      | lead # rest \<Rightarrow>
          if unat lead = 195 then Inr (True, rest)
          else if unat lead = 194 then Inr (False, rest)
          else Inl (TypeError lead))"

text \<open>
  Integers are written in the shortest signed form: positive fixint, negative fixint
  (\<open>-32 .. -1\<close>), int8 \<open>0xd0\<close>, int16 \<open>0xd1\<close>, int32 \<open>0xd2\<close>, int64 \<open>0xd3\<close>. The reader
  also accepts the unsigned forms \<open>0xcc .. 0xcf\<close>.
\<close>

definition AppendInt64 :: "byte list \<Rightarrow> int64 \<Rightarrow> byte list" where
  "AppendInt64 b w =
     (let i = sint w in
      if 0 \<le> i then
        (if i \<le> 127 then b @ [byte_of_nat (nat i)]
         else if i \<le> 32767 then b @ byte_of_nat 209 # be_int 2 i
         else if i \<le> 2147483647 then b @ byte_of_nat 210 # be_int 4 i
         else b @ byte_of_nat 211 # be_int 8 i)
      else
        (if - 32 \<le> i then b @ [byte_of_nat (nat (256 + i))]
         else if - 128 \<le> i then b @ byte_of_nat 208 # be_int 1 i
         else if - 32768 \<le> i then b @ byte_of_nat 209 # be_int 2 i
         else if - 2147483648 \<le> i then b @ byte_of_nat 210 # be_int 4 i
         else b @ byte_of_nat 211 # be_int 8 i))"

definition read_signed :: "nat \<Rightarrow> byte list \<Rightarrow> msgp_error + int64 \<times> byte list" where
  "read_signed n b =
     (if length b < n then Inl ErrShortBytes
      else Inr (word_of_int (be_sint n (take n b)), drop n b))"

definition read_unsigned :: "nat \<Rightarrow> byte list \<Rightarrow> msgp_error + int64 \<times> byte list" where
  "read_unsigned n b =
     (case read_be n b of
        Inl e \<Rightarrow> Inl e
      | Inr (u, rest) \<Rightarrow> if 2 ^ 63 \<le> u then Inl UintOverflow else Inr (of_nat u, rest))"

definition ReadInt64Bytes :: "byte list \<Rightarrow> msgp_error + int64 \<times> byte list" where
  "ReadInt64Bytes b =
     (case b of
        [] \<Rightarrow> Inl ErrShortBytes
      | lead # rest \<Rightarrow>
          if unat lead < 128 then Inr (word_of_int (int (unat lead)), rest)
          else if 224 \<le> unat lead then Inr (word_of_int (int (unat lead) - 256), rest)
          else if unat lead = 208 then read_signed 1 rest
          else if unat lead = 209 then read_signed 2 rest
          else if unat lead = 210 then read_signed 4 rest
          else if unat lead = 211 then read_signed 8 rest
          else if unat lead = 204 then read_unsigned 1 rest
          else if unat lead = 205 then read_unsigned 2 rest
          else if unat lead = 206 then read_unsigned 4 rest
          else if unat lead = 207 then read_unsigned 8 rest
          else Inl (TypeError lead))"

text \<open>The bytes of a string literal of the Go source (field names).\<close>

definition ascii :: "string \<Rightarrow> byte list" where
  "ascii s = map (\<lambda>c. of_nat (of_char c)) s"

text \<open>\<^verbatim>\<open>uint32(len(x))\<close>\<close>

definition uint32_len :: "'a list \<Rightarrow> nat" where
  "uint32_len xs = length xs mod 2 ^ 32"

text \<open>
  \<^verbatim>\<open>msgp.Skip\<close>, which steps over the value of an unknown field, is a parameter of the
  decoders: every statement below holds whatever it does.
\<close>

type_synonym skip = "byte list \<Rightarrow> msgp_error + byte list"

subsection \<open>Tag-deletion request\<close>

text \<open>
  Modelled from the spec: the struct declarations are in \<^verbatim>\<open>graphite.go\<close>, which is not
  among the sources; the fields and their types are those the generated code reads and
  writes (\<open>Paths\<close>: sequence of strings, \<open>Propagate\<close>: boolean).
\<close>

record GraphiteTagDelSeries =
  Paths :: "gostring list"
  Propagate :: bool

text \<open>
  \<^verbatim>\<open>MarshalMsg\<close> appends to \<open>b\<close> (\<^verbatim>\<open>msgp.Require\<close> only reserves capacity).
\<close>

definition MarshalMsg_TagDelSeries :: "GraphiteTagDelSeries \<Rightarrow> byte list \<Rightarrow> byte list" where
  "MarshalMsg_TagDelSeries z b =
     (let o1 = b @ [0x82, 0xa5, 0x50, 0x61, 0x74, 0x68, 0x73];
          o2 = AppendArrayHeader o1 (uint32_len (Paths z));
          o3 = foldl AppendString o2 (Paths z);
          o4 = o3 @ [0xa9, 0x50, 0x72, 0x6f, 0x70, 0x61, 0x67, 0x61, 0x74, 0x65]
      in AppendBool o4 (Propagate z))"

fun read_strings :: "nat \<Rightarrow> byte list \<Rightarrow> msgp_error + gostring list \<times> byte list" where
  "read_strings 0 bts = Inr ([], bts)"
| "read_strings (Suc n) bts =
     (case ReadStringBytes bts of
        Inl e \<Rightarrow> Inl e
      | Inr (s, bts1) \<Rightarrow>
          (case read_strings n bts1 of
             Inl e \<Rightarrow> Inl e
           | Inr (ss, bts2) \<Rightarrow> Inr (s # ss, bts2)))"

text \<open>
  The loop \<^verbatim>\<open>for zb0001 > 0 { zb0001--; field, bts, err = msgp.ReadMapKeyZC(bts); switch ... }\<close>
  of \<^verbatim>\<open>UnmarshalMsg\<close>. The slice \<open>Paths\<close> is resized to the announced length and every
  element is then read, so after a successful read it is the list of the strings read.
  On an error the partly updated receiver is not tracked.
\<close>

fun fields_TagDelSeries ::
  "skip \<Rightarrow> nat \<Rightarrow> GraphiteTagDelSeries \<Rightarrow> byte list \<Rightarrow>
   msgp_error + GraphiteTagDelSeries \<times> byte list" where
  "fields_TagDelSeries Skip 0 z bts = Inr (z, bts)"
| "fields_TagDelSeries Skip (Suc n) z bts =
     (case ReadMapKeyZC bts of
        Inl e \<Rightarrow> Inl e
      | Inr (field, bts1) \<Rightarrow>
          if field = ascii ''Paths'' then
            (case ReadArrayHeaderBytes bts1 of
               Inl e \<Rightarrow> Inl e
             | Inr (sz, bts2) \<Rightarrow>
                 (case read_strings sz bts2 of
                    Inl e \<Rightarrow> Inl e
                  | Inr (ps, bts3) \<Rightarrow> fields_TagDelSeries Skip n (z\<lparr>Paths := ps\<rparr>) bts3))
          else if field = ascii ''Propagate'' then
            (case ReadBoolBytes bts1 of
               Inl e \<Rightarrow> Inl e
             | Inr (v, bts2) \<Rightarrow> fields_TagDelSeries Skip n (z\<lparr>Propagate := v\<rparr>) bts2)
          else
            (case Skip bts1 of
               Inl e \<Rightarrow> Inl e
             | Inr bts2 \<Rightarrow> fields_TagDelSeries Skip n z bts2))"

definition UnmarshalMsg_TagDelSeries ::
  "skip \<Rightarrow> GraphiteTagDelSeries \<Rightarrow> byte list \<Rightarrow> msgp_error + GraphiteTagDelSeries \<times> byte list" where
  "UnmarshalMsg_TagDelSeries Skip z bts =
     (case ReadMapHeaderBytes bts of
        Inl e \<Rightarrow> Inl e
      | Inr (n, bts1) \<Rightarrow> fields_TagDelSeries Skip n z bts1)"

text \<open>
  A valid envelope is one whose lengths fit the 32-bit headers: the encoder writes
  \<^verbatim>\<open>uint32(len(...))\<close>.
\<close>

definition valid_TagDelSeries :: "GraphiteTagDelSeries \<Rightarrow> bool" where
  "valid_TagDelSeries z \<longleftrightarrow>
     length (Paths z) < 2 ^ 32 \<and> list_all (\<lambda>s. length s < 2 ^ 32) (Paths z)"

subsection \<open>Tag-deletion response\<close>

text \<open>
  Modelled from the spec: \<open>Count\<close> is an integer and \<open>Peers\<close> a map from peer id to
  integer. \<^verbatim>\<open>for za0001, za0002 := range z.Peers\<close> visits the entries of the map in an
  order chosen by the runtime; that order is the argument \<open>range_Peers\<close> of the encoder.
\<close>

record GraphiteTagDelSeriesResp =
  Count :: int64
  Peers :: "gostring \<rightharpoonup> int64"

definition MarshalMsg_TagDelSeriesResp ::
  "(gostring \<times> int64) list \<Rightarrow> GraphiteTagDelSeriesResp \<Rightarrow> byte list \<Rightarrow> byte list" where
  "MarshalMsg_TagDelSeriesResp range_Peers z b =
     (let o1 = b @ [0x82, 0xa5, 0x43, 0x6f, 0x75, 0x6e, 0x74];
          o2 = AppendInt64 o1 (Count z);
          o3 = o2 @ [0xa5, 0x50, 0x65, 0x65, 0x72, 0x73];
          o4 = AppendMapHeader o3 (uint32_len range_Peers)
      in foldl (\<lambda>out (za0001, za0002). AppendInt64 (AppendString out za0001) za0002) o4 range_Peers)"

fun read_peers ::
  "nat \<Rightarrow> (gostring \<rightharpoonup> int64) \<Rightarrow> byte list \<Rightarrow> msgp_error + (gostring \<rightharpoonup> int64) \<times> byte list" where
  "read_peers 0 m bts = Inr (m, bts)"
| "read_peers (Suc n) m bts =
     (case ReadStringBytes bts of
        Inl e \<Rightarrow> Inl e
      | Inr (za0001, bts1) \<Rightarrow>
          (case ReadInt64Bytes bts1 of
             Inl e \<Rightarrow> Inl e
           | Inr (za0002, bts2) \<Rightarrow> read_peers n (m(za0001 \<mapsto> za0002)) bts2))"

text \<open>
  The loop \<^verbatim>\<open>for zb0001 > 0 { zb0001--; field, bts, err = msgp.ReadMapKeyZC(bts); switch ... }\<close>
  of \<^verbatim>\<open>UnmarshalMsg\<close>. The slice \<open>Paths\<close> is resized to the announced length and every
  element is then read, so after a successful read it is the list of the strings read.
  On an error the partly updated receiver is not tracked.
\<close>

fun fields_TagDelSeriesResp ::
  "skip \<Rightarrow> nat \<Rightarrow> GraphiteTagDelSeriesResp \<Rightarrow> byte list \<Rightarrow>
   msgp_error + GraphiteTagDelSeriesResp \<times> byte list" where
  "fields_TagDelSeriesResp Skip 0 z bts = Inr (z, bts)"
| "fields_TagDelSeriesResp Skip (Suc n) z bts =
     (case ReadMapKeyZC bts of
        Inl e \<Rightarrow> Inl e
      | Inr (field, bts1) \<Rightarrow>
          if field = ascii ''Count'' then
            (case ReadInt64Bytes bts1 of
               Inl e \<Rightarrow> Inl e
             | Inr (v, bts2) \<Rightarrow> fields_TagDelSeriesResp Skip n (z\<lparr>Count := v\<rparr>) bts2)
          else if field = ascii ''Peers'' then
            (case ReadMapHeaderBytes bts1 of
               Inl e \<Rightarrow> Inl e
             | Inr (sz, bts2) \<Rightarrow>
                 (case read_peers sz Map.empty bts2 of
                    Inl e \<Rightarrow> Inl e
                  | Inr (m, bts3) \<Rightarrow> fields_TagDelSeriesResp Skip n (z\<lparr>Peers := m\<rparr>) bts3))
          else
            (case Skip bts1 of
               Inl e \<Rightarrow> Inl e
             | Inr bts2 \<Rightarrow> fields_TagDelSeriesResp Skip n z bts2))"

definition UnmarshalMsg_TagDelSeriesResp ::
  "skip \<Rightarrow> GraphiteTagDelSeriesResp \<Rightarrow> byte list \<Rightarrow>
   msgp_error + GraphiteTagDelSeriesResp \<times> byte list" where
  "UnmarshalMsg_TagDelSeriesResp Skip z bts =
     (case ReadMapHeaderBytes bts of
        Inl e \<Rightarrow> Inl e
      | Inr (n, bts1) \<Rightarrow> fields_TagDelSeriesResp Skip n z bts1)"

text \<open>\<open>kvs\<close> lists every entry of the map \<open>m\<close> exactly once.\<close>

definition range_of :: "(gostring \<times> int64) list \<Rightarrow> (gostring \<rightharpoonup> int64) \<Rightarrow> bool" where
  "range_of kvs m \<longleftrightarrow> distinct (map fst kvs) \<and> map_of kvs = m"

definition valid_TagDelSeriesResp :: "GraphiteTagDelSeriesResp \<Rightarrow> bool" where
  "valid_TagDelSeriesResp z \<longleftrightarrow>
     finite (dom (Peers z)) \<and> card (dom (Peers z)) < 2 ^ 32 \<and>
     (\<forall>k \<in> dom (Peers z). length k < 2 ^ 32)"

text \<open>Notions used in the proofs about the envelopes.\<close>

definition put_peer :: "gostring \<times> int64 \<Rightarrow> (gostring \<rightharpoonup> int64) \<Rightarrow> (gostring \<rightharpoonup> int64)" where
  "put_peer kv m = m(fst kv \<mapsto> snd kv)"

definition enc_peer :: "gostring \<times> int64 \<Rightarrow> byte list" where
  "enc_peer kv = AppendString [] (fst kv) @ AppendInt64 [] (snd kv)"

subsection \<open>Series metadata entry and collection\<close>

text \<open>
  Modelled from the spec: \<open>path\<close> (string), \<open>isLeaf\<close> (boolean), \<open>intervals\<close> (sequence
  of sequences of 64-bit integers).
\<close>

record SeriesPickleItem =
  Path :: gostring
  IsLeaf :: bool
  Intervals :: "int64 list list"

definition MarshalMsg_SeriesPickleItem :: "SeriesPickleItem \<Rightarrow> byte list \<Rightarrow> byte list" where
  "MarshalMsg_SeriesPickleItem z b =
     (let o1 = b @ [0x83, 0xa4, 0x70, 0x61, 0x74, 0x68];
          o2 = AppendString o1 (Path z);
          o3 = o2 @ [0xa6, 0x69, 0x73, 0x4c, 0x65, 0x61, 0x66];
          o4 = AppendBool o3 (IsLeaf z);
          o5 = o4 @ [0xa9, 0x69, 0x6e, 0x74, 0x65, 0x72, 0x76, 0x61, 0x6c, 0x73];
          o6 = AppendArrayHeader o5 (uint32_len (Intervals z))
      in foldl (\<lambda>out za0001. foldl AppendInt64 (AppendArrayHeader out (uint32_len za0001)) za0001)
           o6 (Intervals z))"

fun read_int64s :: "nat \<Rightarrow> byte list \<Rightarrow> msgp_error + int64 list \<times> byte list" where
  "read_int64s 0 bts = Inr ([], bts)"
| "read_int64s (Suc n) bts =
     (case ReadInt64Bytes bts of
        Inl e \<Rightarrow> Inl e
      | Inr (v, bts1) \<Rightarrow>
          (case read_int64s n bts1 of
             Inl e \<Rightarrow> Inl e
           | Inr (vs, bts2) \<Rightarrow> Inr (v # vs, bts2)))"

fun read_intervals :: "nat \<Rightarrow> byte list \<Rightarrow> msgp_error + int64 list list \<times> byte list" where
  "read_intervals 0 bts = Inr ([], bts)"
| "read_intervals (Suc n) bts =
     (case ReadArrayHeaderBytes bts of
        Inl e \<Rightarrow> Inl e
      | Inr (zb0003, bts1) \<Rightarrow>
          (case read_int64s zb0003 bts1 of
             Inl e \<Rightarrow> Inl e
           | Inr (iv, bts2) \<Rightarrow>
               (case read_intervals n bts2 of
                  Inl e \<Rightarrow> Inl e
                | Inr (ivs, bts3) \<Rightarrow> Inr (iv # ivs, bts3))))"

fun fields_SeriesPickleItem ::
  "skip \<Rightarrow> nat \<Rightarrow> SeriesPickleItem \<Rightarrow> byte list \<Rightarrow> msgp_error + SeriesPickleItem \<times> byte list" where
  "fields_SeriesPickleItem Skip 0 z bts = Inr (z, bts)"
| "fields_SeriesPickleItem Skip (Suc n) z bts =
     (case ReadMapKeyZC bts of
        Inl e \<Rightarrow> Inl e
      | Inr (field, bts1) \<Rightarrow>
          if field = ascii ''path'' then
            (case ReadStringBytes bts1 of
               Inl e \<Rightarrow> Inl e
             | Inr (v, bts2) \<Rightarrow> fields_SeriesPickleItem Skip n (z\<lparr>Path := v\<rparr>) bts2)
          else if field = ascii ''isLeaf'' then
            (case ReadBoolBytes bts1 of
               Inl e \<Rightarrow> Inl e
             | Inr (v, bts2) \<Rightarrow> fields_SeriesPickleItem Skip n (z\<lparr>IsLeaf := v\<rparr>) bts2)
          else if field = ascii ''intervals'' then
            (case ReadArrayHeaderBytes bts1 of
               Inl e \<Rightarrow> Inl e
             | Inr (zb0002, bts2) \<Rightarrow>
                 (case read_intervals zb0002 bts2 of
                    Inl e \<Rightarrow> Inl e
                  | Inr (ivs, bts3) \<Rightarrow>
                      fields_SeriesPickleItem Skip n (z\<lparr>Intervals := ivs\<rparr>) bts3))
          else
            (case Skip bts1 of
               Inl e \<Rightarrow> Inl e
             | Inr bts2 \<Rightarrow> fields_SeriesPickleItem Skip n z bts2))"

definition UnmarshalMsg_SeriesPickleItem ::
  "skip \<Rightarrow> SeriesPickleItem \<Rightarrow> byte list \<Rightarrow> msgp_error + SeriesPickleItem \<times> byte list" where
  "UnmarshalMsg_SeriesPickleItem Skip z bts =
     (case ReadMapHeaderBytes bts of
        Inl e \<Rightarrow> Inl e
      | Inr (n, bts1) \<Rightarrow> fields_SeriesPickleItem Skip n z bts1)"

definition valid_SeriesPickleItem :: "SeriesPickleItem \<Rightarrow> bool" where
  "valid_SeriesPickleItem z \<longleftrightarrow>
     length (Path z) < 2 ^ 32 \<and> length (Intervals z) < 2 ^ 32 \<and>
     list_all (\<lambda>iv. length iv < 2 ^ 32) (Intervals z)"

type_synonym SeriesPickle = "SeriesPickleItem list"

definition MarshalMsg_SeriesPickle :: "SeriesPickle \<Rightarrow> byte list \<Rightarrow> byte list" where
  "MarshalMsg_SeriesPickle z b =
     foldl (\<lambda>out item. MarshalMsg_SeriesPickleItem item out)
       (AppendArrayHeader b (uint32_len z)) z"

text \<open>
  \<^verbatim>\<open>for zb0001 := range *z { bts, err = (*z)[zb0001].UnmarshalMsg(bts) }\<close>: every entry is
  decoded into the slot of the resized slice, whose previous content is \<open>slots zb0001\<close>.
\<close>

fun read_items ::
  "skip \<Rightarrow> (nat \<Rightarrow> SeriesPickleItem) \<Rightarrow> nat \<Rightarrow> nat \<Rightarrow> byte list \<Rightarrow>
   msgp_error + SeriesPickle \<times> byte list" where
  "read_items Skip slots zb0001 0 bts = Inr ([], bts)"
| "read_items Skip slots zb0001 (Suc n) bts =
     (case UnmarshalMsg_SeriesPickleItem Skip (slots zb0001) bts of
        Inl e \<Rightarrow> Inl e
      | Inr (item, bts1) \<Rightarrow>
          (case read_items Skip slots (Suc zb0001) n bts1 of
             Inl e \<Rightarrow> Inl e
           | Inr (items, bts2) \<Rightarrow> Inr (item # items, bts2)))"

definition UnmarshalMsg_SeriesPickle ::
  "skip \<Rightarrow> (nat \<Rightarrow> SeriesPickleItem) \<Rightarrow> byte list \<Rightarrow> msgp_error + SeriesPickle \<times> byte list" where
  "UnmarshalMsg_SeriesPickle Skip slots bts =
     (case ReadArrayHeaderBytes bts of
        Inl e \<Rightarrow> Inl e
      | Inr (zb0002, bts1) \<Rightarrow> read_items Skip slots 0 zb0002 bts1)"

definition valid_SeriesPickle :: "SeriesPickle \<Rightarrow> bool" where
  "valid_SeriesPickle z \<longleftrightarrow> length z < 2 ^ 32 \<and> list_all valid_SeriesPickleItem z"

definition enc_interval :: "int64 list \<Rightarrow> byte list" where
  "enc_interval iv = AppendArrayHeader [] (uint32_len iv) @ concat (map (AppendInt64 []) iv)"

text \<open>Concrete envelopes for the examples; a \<^verbatim>\<open>Skip\<close> that always fails.\<close>

definition ex_TagDelSeries :: GraphiteTagDelSeries where
  "ex_TagDelSeries = \<lparr>Paths = [ascii ''a.b'', ascii ''c''], Propagate = True\<rparr>"

definition ex_TagDelSeriesResp :: GraphiteTagDelSeriesResp where
  "ex_TagDelSeriesResp =
     \<lparr>Count = 3, Peers = [ascii ''p1'' \<mapsto> - 5, ascii ''p2'' \<mapsto> 70000]\<rparr>"

definition ex_SeriesPickleItem :: SeriesPickleItem where
  "ex_SeriesPickleItem =
     \<lparr>Path = ascii ''a.b'', IsLeaf = True, Intervals = [[0, 1500000000]]\<rparr>"

definition no_Skip :: skip where
  "no_Skip bts = Inl SkipError"

section \<open>Decimal rendering is injective\<close>

lemma dec_lt10: "n < 10 \<Longrightarrow> dec n = [digit_char n]"
  by (simp add: dec.simps [of n])

lemma dec_ge10: "\<not> n < 10 \<Longrightarrow> dec n = dec (n div 10) @ [digit_char (n mod 10)]"
  by (simp add: dec.simps [of n])

lemma digit_val_digit_char: "d < 10 \<Longrightarrow> digit_val (digit_char d) = d"
proof -
  assume "d < 10"
  then have "d \<in> {0,1,2,3,4,5,6,7,8,9}" by auto
  then show ?thesis by (auto simp: digit_val_def digit_char_def)
qed

lemma undec_dec: "undec (dec n) = n"
proof (induction n rule: dec.induct)
  case (1 n)
  show ?case
  proof (cases "n < 10")
    case True
    then show ?thesis by (simp add: dec_lt10 undec_def digit_val_digit_char)
  next
    case False
    then have "undec (dec (n div 10)) = n div 10" using 1 by simp
    then show ?thesis using False
      by (simp add: dec_ge10 undec_def digit_val_digit_char)
  qed
qed

lemma dec_inj: "dec a = dec b \<longleftrightarrow> a = b"
proof
  assume "dec a = dec b"
  then have "undec (dec a) = undec (dec b)" by simp
  then show "a = b" by (simp add: undec_dec)
qed simp

lemma row_key_eq_iff:
  "row_key key a = row_key key b \<longleftrightarrow> unat (a div Month_sec) = unat (b div Month_sec)"
  by (simp add: row_key_def dec_inj)

section \<open>Row-key locality\<close>

lemma month_locality_nat:
  fixes t s M :: nat
  assumes "s dvd M" "s dvd t" "s \<le> t" "0 < s" "0 < M"
  shows "(t div M = (t - s) div M) \<longleftrightarrow> t mod M \<noteq> 0"
proof
  assume eq: "t div M = (t - s) div M"
  show "t mod M \<noteq> 0"
  proof
    assume "t mod M = 0"
    then have "M dvd t" by (simp add: mod_eq_0_iff_dvd)
    then have q: "t = (t div M) * M" by simp
    have "t - s < t" using assms by simp
    then have "t - s < (t div M) * M" using q by simp
    then have "(t - s) div M < t div M" using assms(5) by (simp add: div_less_iff_less_mult)
    then show False using eq by simp
  qed
next
  assume nz: "t mod M \<noteq> 0"
  have "s dvd t mod M" using assms(1,2) by (simp add: dvd_mod)
  then have le: "s \<le> t mod M" using nz by (simp add: dvd_imp_le)
  have "t = (t div M) * M + t mod M" by simp
  then have "t - s = (t div M) * M + (t mod M - s)" using le by linarith
  moreover have "t mod M - s < M" using assms(5) by (meson less_imp_diff_less mod_less_divisor)
  ultimately show "t div M = (t - s) div M" by simp
qed

text \<open>
  C3. For every metric key and every chunk start \<open>t0\<close> that is a multiple of the chunk
  span with \<open>t0 \<ge> chunkSpan\<close>, where the span divides \<open>Month_sec\<close>
  (\<open>Month_sec mod chunkSpan = 0\<close>, which excludes a zero span), the row key of the chunk
  at \<open>t0\<close> equals the row key of the chunk at \<open>t0 - chunkSpan\<close> if and only if
  \<open>t0 mod Month_sec \<noteq> 0\<close>.
\<close>

theorem row_key_locality:
  assumes "Month_sec mod chunkSpan = 0" and "t0 mod chunkSpan = 0" and "chunkSpan \<le> t0"
  shows "(row_key key t0 = row_key key (t0 - chunkSpan)) \<longleftrightarrow> t0 mod Month_sec \<noteq> 0"
proof -
  let ?M = "unat Month_sec"
  have M: "?M = 2419200" by (simp add: Month_sec_def)
  have s0: "chunkSpan \<noteq> 0" using assms(1) by (auto simp: Month_sec_def)
  then have spos: "0 < unat chunkSpan" by (simp add: unat_gt_0)
  have "unat (Month_sec mod chunkSpan) = 0" using assms(1) by simp
  then have d1: "unat chunkSpan dvd ?M" by (simp add: unat_mod mod_eq_0_iff_dvd)
  have "unat (t0 mod chunkSpan) = 0" using assms(2) by simp
  then have d2: "unat chunkSpan dvd unat t0" by (simp add: unat_mod mod_eq_0_iff_dvd)
  have le: "unat chunkSpan \<le> unat t0" using assms(3) by (simp add: word_le_nat_alt)
  have sub: "unat (t0 - chunkSpan) = unat t0 - unat chunkSpan" using assms(3) by (simp add: unat_sub)
  have "(row_key key t0 = row_key key (t0 - chunkSpan)) \<longleftrightarrow>
        unat (t0 div Month_sec) = unat ((t0 - chunkSpan) div Month_sec)"
    by (simp add: row_key_eq_iff)
  also have "\<dots> \<longleftrightarrow> unat t0 div ?M = (unat t0 - unat chunkSpan) div ?M"
    by (simp add: unat_div sub)
  also have "\<dots> \<longleftrightarrow> unat t0 mod ?M \<noteq> 0"
    using month_locality_nat [OF d1 d2 le spos] M by simp
  also have "\<dots> \<longleftrightarrow> t0 mod Month_sec \<noteq> 0"
    by (simp add: unat_mod [symmetric] unat_eq_zero)
  finally show ?thesis .
qed

theorem row_key_locality_witness:
  "Month_sec mod 604800 = 0 \<and> (4838400::uint32) mod 604800 = 0 \<and> (604800::uint32) \<le> 4838400 \<and>
   ((row_key ''foo'' 4838400 = row_key ''foo'' (4838400 - 604800)) \<longleftrightarrow>
      (4838400::uint32) mod Month_sec \<noteq> 0)"
proof -
  have a: "Month_sec mod 604800 = 0" by (simp add: Month_sec_def)
  have b: "(4838400::uint32) mod 604800 = 0" by simp
  have c: "(604800::uint32) \<le> 4838400" by simp
  show ?thesis using a b c row_key_locality [OF a b c, of "''foo''"] by simp
qed

section \<open>TTL routing\<close>

lemma ttlUnits_nat: "ttlUnits ttl = real (unat ttl) / 3600"
  by (simp add: ttlUnits_def)

lemma pfw_bucket_real:
  fixes t :: nat
  assumes lo: "2 ^ k * 3600 \<le> t" and hi: "t < 2 ^ (k + 1) * 3600"
  shows "Exp2 (Floor (Log2 (real t / 3600))) = 2 ^ k"
proof -
  let ?x = "real t / 3600"
  have "0 < t" using lo by (cases "t = 0") auto
  then have pos: "0 < ?x" by simp
  have "real (2 ^ k * 3600) \<le> real t" using lo by (simp only: of_nat_le_iff)
  then have l: "2 powr (of_int (int k)) \<le> ?x"
    by (simp add: powr_realpow field_simps)
  have "real t < real (2 ^ (k + 1) * 3600)" using hi by (simp only: of_nat_less_iff)
  then have h: "?x < 2 powr (of_int (int k + 1))"
    by (simp add: powr_realpow powr_add field_simps)
  have fl: "\<lfloor>log 2 ?x\<rfloor> = int k"
    using l h pos by (simp add: floor_log_eq_powr_iff)
  show ?thesis
    using pos fl by (simp add: Log2_def powr_realpow)
qed

lemma pfw_small_real:
  fixes t :: nat
  assumes "t < 3600"
  shows "\<lfloor>Exp2 (Floor (Log2 (real t / 3600)))\<rfloor> = 0"
proof (cases "t = 0")
  case True
  then show ?thesis by (simp add: Log2_def)
next
  case False
  let ?x = "real t / 3600"
  have pos: "0 < ?x" using False by simp
  have lt1: "?x < 1" using assms by simp
  have "log 2 ?x < 0" using pos lt1 by simp
  then have "\<lfloor>log 2 ?x\<rfloor> < 0" by linarith
  then have "real_of_int \<lfloor>log 2 ?x\<rfloor> < 0" by simp
  then have "2 powr (real_of_int \<lfloor>log 2 ?x\<rfloor>) < 1" by (simp add: powr_less_one)
  moreover have "0 \<le> 2 powr (real_of_int \<lfloor>log 2 ?x\<rfloor>)" by simp
  ultimately have "\<lfloor>2 powr (real_of_int \<lfloor>log 2 ?x\<rfloor>)\<rfloor> = 0" by linarith
  then show ?thesis using pos
    by (simp add: Log2_def)
qed

lemma preFactorWindow_bucket:
  assumes lo: "2 ^ k * 3600 \<le> unat ttl" and hi: "unat ttl < 2 ^ (k + 1) * 3600"
  shows "preFactorWindow ttl = 2 ^ k"
  unfolding preFactorWindow_def ttlUnits_nat uint32_of_float_def
  by (simp only: pfw_bucket_real [OF lo hi]) simp

lemma preFactorWindow_small:
  assumes "unat ttl < 3600"
  shows "preFactorWindow ttl = 0"
  unfolding preFactorWindow_def ttlUnits_nat uint32_of_float_def
  by (simp only: pfw_small_real [OF assms]) simp

lemma Sprintf_metric: "Sprintf ''metric_%d'' a = ''metric_'' @ dec (unat a)"
  by (simp add: Sprintf_def)

lemma GetTTLTable_pfw:
  "preFactorWindow ttl = p \<Longrightarrow>
   GetTTLTable ttl windowFactor nameFormat =
     (if uint32_of_int windowFactor = 0 then Inl DivideByZero
      else Inr \<lparr>Table = Sprintf nameFormat p, WindowSize = p div uint32_of_int windowFactor + 1\<rparr>)"
  by (simp add: GetTTLTable_def Let_def)

lemma uint32_of_int_eq_0_iff: "uint32_of_int w = 0 \<longleftrightarrow> 2 ^ 32 dvd w"
  by (simp add: uint32_of_int_def word_of_int_eq_0_iff)

text \<open>
  C4. The claim (for ttl = 0 the preFactor is 1, the table is \<open>format(nameFormat, 1)\<close> and
  the window size \<open>1 / windowFactor + 1\<close>) does not hold: \<^verbatim>\<open>math.Log2(0)\<close> is \<open>-Inf\<close>,
  so the preFactor is 0, as the table in the comment of \<^verbatim>\<open>GetTTLTable\<close> says
  (\<open>0 <= hours < 1\<close> goes to \<open>metrics_0\<close>). Amended: for ttl = 0 the preFactor is 0; for
  every windowFactor \<open>\<ge> 1\<close> that is not a multiple of \<open>2^32\<close> and every name format the
  router returns the table name \<open>format(nameFormat, 0)\<close> and the window size
  \<open>0 / windowFactor + 1 = 1\<close>.
\<close>

theorem ttl_zero_table:
  assumes "1 \<le> windowFactor" and "\<not> 2 ^ 32 dvd windowFactor"
  shows "preFactorWindow 0 = 0 \<and>
         GetTTLTable 0 windowFactor nameFormat =
           Inr \<lparr>Table = Sprintf nameFormat 0, WindowSize = 1\<rparr>"
proof -
  have "preFactorWindow 0 = 0" by (rule preFactorWindow_small) simp
  then show ?thesis
    using assms(2) by (simp add: GetTTLTable_pfw uint32_of_int_eq_0_iff word_div_def)
qed

theorem ttl_zero_table_witness:
  "(1::int) \<le> 20 \<and> \<not> 2 ^ 32 dvd (20::int) \<and> preFactorWindow 0 = 0 \<and>
   GetTTLTable 0 20 ''metric_%d'' = Inr \<lparr>Table = Sprintf ''metric_%d'' 0, WindowSize = 1\<rparr>"
  using ttl_zero_table [of 20 "''metric_%d''"] by simp

text \<open>
  The counterexample to C4 as stated: with windowFactor 20 and the default format the
  router returns \<open>metric_0\<close>, not \<open>format(nameFormat, 1) = metric_1\<close>; and with
  windowFactor \<open>2^32\<close> the divisor \<^verbatim>\<open>uint32(windowFactor)\<close> is 0 and the router panics.
\<close>

theorem ttl_zero_counterexample:
  "GetTTLTable 0 20 ''metric_%d'' = Inr \<lparr>Table = ''metric_0'', WindowSize = 1\<rparr> \<and>
   GetTTLTable 0 20 ''metric_%d'' \<noteq>
     Inr \<lparr>Table = Sprintf ''metric_%d'' 1, WindowSize = 1 div uint32_of_int 20 + 1\<rparr> \<and>
   GetTTLTable 0 4294967296 ''metric_%d'' = Inl DivideByZero"
proof -
  have p: "preFactorWindow 0 = 0" by (rule preFactorWindow_small) simp
  show ?thesis
    by (simp add: GetTTLTable_pfw [OF p] uint32_of_int_def Sprintf_metric dec_lt10 digit_char_def)
qed

text \<open>
  C5. The claim places no condition on the windowFactor; when \<^verbatim>\<open>uint32(windowFactor)\<close> is
  zero the router panics and returns no table name at all. Amended: for every \<open>k\<close>, every
  two TTLs in \<open>[2^k * 3600, 2^(k+1) * 3600)\<close>, every name format and every windowFactor
  that is not a multiple of \<open>2^32\<close> (so that \<^verbatim>\<open>uint32(windowFactor)\<close> is not zero), the
  router returns for both TTLs the same table name, \<open>format(nameFormat, 2^k)\<close> (and the
  same window size).
\<close>

theorem ttl_bucket_same_table:
  assumes "2 ^ k * 3600 \<le> unat ttl1" and "unat ttl1 < 2 ^ (k + 1) * 3600"
    and "2 ^ k * 3600 \<le> unat ttl2" and "unat ttl2 < 2 ^ (k + 1) * 3600"
    and "\<not> 2 ^ 32 dvd windowFactor"
  shows "GetTTLTable ttl1 windowFactor nameFormat =
           Inr \<lparr>Table = Sprintf nameFormat (2 ^ k),
                 WindowSize = 2 ^ k div uint32_of_int windowFactor + 1\<rparr> \<and>
         GetTTLTable ttl2 windowFactor nameFormat =
           Inr \<lparr>Table = Sprintf nameFormat (2 ^ k),
                 WindowSize = 2 ^ k div uint32_of_int windowFactor + 1\<rparr>"
  using preFactorWindow_bucket [OF assms(1,2)] preFactorWindow_bucket [OF assms(3,4)] assms(5)
  by (simp add: GetTTLTable_pfw uint32_of_int_eq_0_iff)

theorem ttl_bucket_same_table_witness:
  "2 ^ 7 * 3600 \<le> unat (604800::uint32) \<and> unat (604800::uint32) < 2 ^ (7 + 1) * 3600 \<and>
   2 ^ 7 * 3600 \<le> unat (700000::uint32) \<and> unat (700000::uint32) < 2 ^ (7 + 1) * 3600 \<and>
   \<not> 2 ^ 32 dvd (20::int) \<and>
   GetTTLTable 604800 20 ''metric_%d'' = Inr \<lparr>Table = ''metric_128'', WindowSize = 7\<rparr> \<and>
   GetTTLTable 700000 20 ''metric_%d'' = Inr \<lparr>Table = ''metric_128'', WindowSize = 7\<rparr>"
  using ttl_bucket_same_table [of 7 604800 700000 20 "''metric_%d''"]
  by (auto simp add: uint32_of_int_def Sprintf_metric dec_lt10 dec_ge10 digit_char_def)

text \<open>
  The counterexample to C5 as stated: 3600 and 7199 both lie in \<open>[2^0 * 3600, 2^1 * 3600)\<close>,
  and with windowFactor 0, or with windowFactor \<open>2^32\<close>, the router panics on the division
  for either of them instead of returning a table name.
\<close>

theorem ttl_bucket_counterexample:
  "2 ^ 0 * 3600 \<le> unat (3600::uint32) \<and> unat (3600::uint32) < 2 ^ (0 + 1) * 3600 \<and>
   2 ^ 0 * 3600 \<le> unat (7199::uint32) \<and> unat (7199::uint32) < 2 ^ (0 + 1) * 3600 \<and>
   GetTTLTable 3600 0 ''metric_%d'' = Inl DivideByZero \<and>
   GetTTLTable 7199 0 ''metric_%d'' = Inl DivideByZero \<and>
   GetTTLTable 3600 4294967296 ''metric_%d'' = Inl DivideByZero \<and>
   GetTTLTable 7199 4294967296 ''metric_%d'' = Inl DivideByZero"
  by (simp add: GetTTLTable_def Let_def uint32_of_int_def)

text \<open>
  C6. With windowFactor 20 and name format \<open>metric_%d\<close>: ttl 3600 goes to table
  \<open>metric_1\<close> with window size 1; ttl 604800 (168 hours) has preFactor 128 and goes to
  table \<open>metric_128\<close> with window size 7.
\<close>

theorem ttl_routing_examples:
  "GetTTLTable 3600 20 ''metric_%d'' = Inr \<lparr>Table = ''metric_1'', WindowSize = 1\<rparr> \<and>
   preFactorWindow 604800 = 128 \<and>
   GetTTLTable 604800 20 ''metric_%d'' = Inr \<lparr>Table = ''metric_128'', WindowSize = 7\<rparr>"
proof -
  have a: "preFactorWindow 3600 = 1"
    using preFactorWindow_bucket [of 0 3600] by simp
  have b: "preFactorWindow 604800 = 128"
    using preFactorWindow_bucket [of 7 604800] by simp
  have "GetTTLTable 3600 20 ''metric_%d'' = Inr \<lparr>Table = ''metric_1'', WindowSize = 1\<rparr>"
    by (simp add: GetTTLTable_pfw [OF a] uint32_of_int_def Sprintf_metric dec_lt10 digit_char_def)
  moreover have "GetTTLTable 604800 20 ''metric_%d'' = Inr \<lparr>Table = ''metric_128'', WindowSize = 7\<rparr>"
    by (simp add: GetTTLTable_pfw [OF b] uint32_of_int_def Sprintf_metric dec_lt10 dec_ge10
        digit_char_def)
  ultimately show ?thesis using b by simp
qed

text \<open>
  C10. The claim quantifies over every windowFactor \<open>\<ge> 1\<close>; it fails for the multiples
  of \<open>2^32\<close>, where \<^verbatim>\<open>uint32(windowFactor)\<close> is 0 and the division panics. Amended: for
  every ttl with \<open>0 < ttl < 3600\<close> the preFactor truncates to 0, and for every windowFactor
  \<open>\<ge> 1\<close> that is not a multiple of \<open>2^32\<close> the router returns the table name
  \<open>format(nameFormat, 0)\<close> (\<open>metric_0\<close> under the default format) and the window size 1.
\<close>

theorem ttl_subhour_table:
  assumes "0 < unat ttl" and "unat ttl < 3600"
    and "1 \<le> windowFactor" and "\<not> 2 ^ 32 dvd windowFactor"
  shows "preFactorWindow ttl = 0 \<and>
         GetTTLTable ttl windowFactor nameFormat =
           Inr \<lparr>Table = Sprintf nameFormat 0, WindowSize = 1\<rparr> \<and>
         Sprintf Table_name_format 0 = ''metric_0''"
proof -
  have "preFactorWindow ttl = 0" by (rule preFactorWindow_small) (rule assms(2))
  then show ?thesis
    using assms(4)
    by (simp add: GetTTLTable_pfw uint32_of_int_eq_0_iff word_div_def Table_name_format_def
        Sprintf_metric dec_lt10 digit_char_def)
qed

theorem ttl_subhour_table_witness:
  "0 < unat (1800::uint32) \<and> unat (1800::uint32) < 3600 \<and> (1::int) \<le> 20 \<and>
   \<not> 2 ^ 32 dvd (20::int) \<and> preFactorWindow 1800 = 0 \<and>
   GetTTLTable 1800 20 ''metric_%d'' = Inr \<lparr>Table = ''metric_0'', WindowSize = 1\<rparr>"
  using ttl_subhour_table [of 1800 20 "''metric_%d''"]
  by (simp add: Sprintf_metric dec_lt10 digit_char_def)

text \<open>
  The counterexample to C10 as stated: ttl 1800 with windowFactor \<open>2^32\<close>, a valid Go
  \<^verbatim>\<open>int\<close> that is \<open>\<ge> 1\<close>, makes the router panic instead of returning window size 1.
\<close>

theorem ttl_subhour_counterexample:
  "(1::int) \<le> 4294967296 \<and> GetTTLTable 1800 4294967296 ''metric_%d'' = Inl DivideByZero"
  by (simp add: GetTTLTable_def Let_def uint32_of_int_def)

section \<open>Row keys of a search\<close>

lemma unat_Month_sec: "unat Month_sec = 2419200"
  by (simp add: Month_sec_def)

lemma unat_month_word:
  assumes "i * 2419200 < 2 ^ 32"
  shows "unat (month_word i) = i * 2419200"
  unfolding month_word_def using assms by (simp only: unat_of_nat) simp

lemma row_key_month:
  assumes "i * 2419200 < 2 ^ 32"
  shows "row_key key (month_word i) = key @ ''_'' @ dec i"
  by (simp add: row_key_def unat_div unat_Month_sec unat_month_word [OF assms])

lemma month_word_step: "month_word i + Month_sec = month_word (Suc i)"
  by (simp add: Month_sec_def month_word_def)

lemma month_word_le:
  assumes "i * 2419200 < 2 ^ 32" and "j * 2419200 < 2 ^ 32"
  shows "month_word i \<le> month_word j \<longleftrightarrow> i \<le> j"
  by (simp add: word_le_nat_alt unat_month_word [OF assms(1)] unat_month_word [OF assms(2)])

lemma rowKeys_loop_nowrap:
  assumes "(e + 1) * 2419200 < 2 ^ 32" and "i \<le> e + 1"
  shows "rowKeys_loop key (month_word i) (month_word e) acc =
           Some (acc @ map (\<lambda>j. key @ ''_'' @ dec j) [i..<e + 1])"
  using assms(2)
proof (induction "e + 1 - i" arbitrary: i acc)
  case 0
  then have i: "i = e + 1" by simp
  have be: "e * 2419200 < 2 ^ 32" using assms(1) by simp
  have "\<not> month_word (e + 1) \<le> month_word e"
    using month_word_le [OF assms(1) be] by simp
  then show ?case
    by (subst rowKeys_loop.simps) (simp add: i)
next
  case (Suc n)
  then have ie: "i \<le> e" by simp
  have be: "e * 2419200 < 2 ^ 32" using assms(1) by simp
  have bi: "i * 2419200 < 2 ^ 32" using ie be by simp
  have le: "month_word i \<le> month_word e"
    using ie by (simp add: month_word_le [OF bi be])
  have n: "n = e + 1 - Suc i" using Suc(2) by simp
  have IH: "rowKeys_loop key (month_word (Suc i)) (month_word e)
              (acc @ [row_key key (month_word i)]) =
            Some ((acc @ [row_key key (month_word i)]) @
                  map (\<lambda>j. key @ ''_'' @ dec j) [Suc i..<e + 1])"
    by (rule Suc(1)) (use n ie in simp_all)
  have upt: "[i..<e + 1] = i # [Suc i..<e + 1]" using ie by (simp add: upt_conv_Cons)
  have "rowKeys_loop key (month_word i) (month_word e) acc =
        rowKeys_loop key (month_word (Suc i)) (month_word e) (acc @ [row_key key (month_word i)])"
    by (subst rowKeys_loop.simps) (simp only: le if_True month_word_step)
  also have "\<dots> = Some (acc @ map (\<lambda>j. key @ ''_'' @ dec j) [i..<e + 1])"
    unfolding IH upt by (simp add: row_key_month [OF bi])
  finally show ?case .
qed

lemma start_month_word: "start_month_of start = month_word (unat start div 2419200)"
proof -
  have le: "start mod Month_sec \<le> start"
    by (simp add: word_le_nat_alt unat_mod)
  have "unat (start_month_of start) = unat start - unat start mod 2419200"
    by (simp add: start_month_of_def unat_sub [OF le] unat_mod unat_Month_sec)
  also have "\<dots> = (unat start div 2419200) * 2419200"
    by (simp add: minus_mod_eq_div_mult)
  finally have "unat (start_month_of start) = (unat start div 2419200) * 2419200" .
  then have "of_nat (unat (start_month_of start)) = month_word (unat start div 2419200)"
    by (simp only: month_word_def)
  then show ?thesis by simp
qed

lemma end_month_word: "end_month_of endTs = month_word (unat (endTs - 1) div 2419200)"
  using start_month_word [of "endTs - 1"] by (simp add: start_month_of_def end_month_of_def)

lemma unat_end_minus_one:
  assumes "start < endTs"
  shows "unat (endTs - 1) = unat endTs - 1" and "unat start \<le> unat endTs - 1"
proof -
  have lt: "unat start < unat endTs" using assms by (simp add: word_less_nat_alt)
  then have "endTs \<noteq> 0" by (auto simp: unat_eq_zero)
  then show "unat (endTs - 1) = unat endTs - 1" by (rule unat_minus_one)
  show "unat start \<le> unat endTs - 1" using lt by simp
qed

text \<open>
  As long as the last queried month is not the last month that starts below \<open>2^32\<close>
  (that is, \<open>end - 1 < 4294080000\<close>), the queried months are \<open>start_month\<close> through
  \<open>end_month\<close> in steps of \<open>Month_sec\<close>, and each contributes the row key
  \<open>key_(month / Month_sec)\<close>.
\<close>

lemma rowKeys_of_nowrap:
  assumes "start < endTs" and "unat endTs - 1 < 4294080000"
  shows "rowKeys_of key start endTs =
           Some (map (\<lambda>j. key @ ''_'' @ dec j)
                  [unat start div 2419200..<(unat endTs - 1) div 2419200 + 1])"
proof -
  let ?s = "unat start div 2419200" and ?e = "(unat endTs - 1) div 2419200"
  have "?s \<le> ?e" using unat_end_minus_one(2) [OF assms(1)] by (rule div_le_mono)
  then have se: "?s \<le> ?e + 1" by simp
  have "?e < 1775" using assms(2) by simp
  then have bound: "(?e + 1) * 2419200 < 2 ^ 32" by simp
  show ?thesis
    unfolding rowKeys_of_def start_month_word end_month_word unat_end_minus_one(1) [OF assms(1)]
    using rowKeys_loop_nowrap [OF bound se, of key "[]"] by simp
qed

text \<open>The scenario of the specification: \<open>foo\<close>, 5222000, 7555000.\<close>

lemma rowKeys_example:
  "start_month_of 5222000 = 4838400 \<and> end_month_of 7555000 = 7257600 \<and>
   rowKeys_of ''foo'' 5222000 7555000 = Some [''foo_2'', ''foo_3'']"
proof -
  have "rowKeys_of ''foo'' 5222000 7555000 = Some [''foo_2'', ''foo_3'']"
    using rowKeys_of_nowrap [of 5222000 7555000 "''foo''"]
    by (simp add: upt_conv_Cons dec_lt10 digit_char_def)
  then show ?thesis
    by (simp add: start_month_of_def end_month_of_def Month_sec_def)
qed


lemma rowKeys_loop_exit:
  "\<not> month + of_nat j * Month_sec \<le> end_month \<Longrightarrow>
   \<exists>r. rowKeys_loop key month end_month acc = Some (acc @ r)"
proof (induction j arbitrary: month acc)
  case 0
  then show ?case by (subst rowKeys_loop.simps) simp
next
  case (Suc j)
  show ?case
  proof (cases "month \<le> end_month")
    case False
    then show ?thesis by (subst rowKeys_loop.simps) simp
  next
    case True
    have "\<not> (month + Month_sec) + of_nat j * Month_sec \<le> end_month"
      using Suc.prems by (simp add: algebra_simps)
    then obtain r where
      "rowKeys_loop key (month + Month_sec) end_month (acc @ [row_key key month]) =
         Some ((acc @ [row_key key month]) @ r)"
      using Suc.IH by blast
    then have "rowKeys_loop key month end_month acc = Some (acc @ (row_key key month # r))"
      using True by (subst rowKeys_loop.simps) simp
    then show ?thesis by blast
  qed
qed

lemma word_reach_aux: "(x::uint32) * m + c * m - x * m = c * m"
  by simp

lemma month_word_reaches_top:
  "month_word s + of_nat (unat (8386876 * 2562436573 - of_nat s :: uint32)) * Month_sec = 4294080512"
proof -
  have m: "month_word s = of_nat s * 2419200" by (simp add: month_word_def)
  have c: "(8386876 * 2562436573 :: uint32) * 2419200 = 4294080512" by code_simp
  have "month_word s + (8386876 * 2562436573 - of_nat s) * Month_sec =
        (8386876 * 2562436573 :: uint32) * 2419200"
    unfolding m Month_sec_def
    by (simp only: left_diff_distrib add_diff_eq word_reach_aux) simp
  then show ?thesis using c by simp
qed

lemma end_month_le: "unat (end_month_of endTs) \<le> 4294080000"
proof -
  have "unat (endTs - 1) < 2 ^ 32" using unsigned_less [of "endTs - 1"] by simp
  then have e: "unat (endTs - 1) div 2419200 \<le> 1775" by simp
  then have "(unat (endTs - 1) div 2419200) * 2419200 < 2 ^ 32" by simp
  then have "unat (end_month_of endTs) = (unat (endTs - 1) div 2419200) * 2419200"
    unfolding end_month_word by (rule unat_month_word)
  then show ?thesis using e by simp
qed

text \<open>
  The loop always ends, also when the counter wraps: the months it visits are all
  multiples of 512 modulo \<open>2^32\<close>, and one of them, 4294080512, lies above every
  possible \<open>end_month\<close>.
\<close>

lemma rowKeys_of_total: "\<exists>r. rowKeys_of key start endTs = Some r"
proof -
  have "\<not> (4294080512 :: uint32) \<le> end_month_of endTs"
    using end_month_le [of endTs] by (simp add: word_le_nat_alt)
  then have "\<not> start_month_of start +
      of_nat (unat (8386876 * 2562436573 - of_nat (unat start div 2419200) :: uint32)) * Month_sec
      \<le> end_month_of endTs"
    unfolding start_month_word month_word_reaches_top .
  from rowKeys_loop_exit [OF this, of key "[]"] show ?thesis
    by (auto simp: rowKeys_of_def)
qed

text \<open>
  C7. The general statement fails at the top of the \<^verbatim>\<open>uint32\<close> range. For
  \<open>start = 4294080000\<close> and \<open>end = 4294080001\<close> both months are 4294080000 (month
  number 1775), and the claim gives exactly the row key \<open>foo_1775\<close>. In the code,
  \<^verbatim>\<open>month += Month_sec\<close> wraps to 1531904, which is again \<open>\<le> end_month\<close>, so the loop goes
  on and appends \<open>foo_0\<close> and further keys of months that were never asked for.
\<close>

theorem rowKeys_wrap_example:
  "map_option (take 2) (rowKeys_of ''foo'' 4294080000 4294080001) = Some [''foo_1775'', ''foo_0'']"
proof -
  have sm: "start_month_of 4294080000 = 4294080000"
    by (simp add: start_month_of_def Month_sec_def)
  have em: "end_month_of 4294080001 = 4294080000"
    by (simp add: end_month_of_def Month_sec_def)
  have k1: "row_key ''foo'' 4294080000 = ''foo_1775''"
    by (simp add: row_key_def Month_sec_def dec_lt10 dec_ge10 digit_char_def)
  have k2: "row_key ''foo'' 1531904 = ''foo_0''"
    by (simp add: row_key_def Month_sec_def dec_lt10 dec_ge10 digit_char_def)
  have s1: "(4294080000 :: uint32) + Month_sec = 1531904" by (simp add: Month_sec_def)
  have s2: "(1531904 :: uint32) + Month_sec = 3951104" by (simp add: Month_sec_def)
  have "rowKeys_of ''foo'' 4294080000 4294080001 =
        rowKeys_loop ''foo'' 1531904 4294080000 [''foo_1775'']"
    unfolding rowKeys_of_def sm em
    by (subst rowKeys_loop.simps) (simp add: k1 s1)
  also have "\<dots> = rowKeys_loop ''foo'' 3951104 4294080000 [''foo_1775'', ''foo_0'']"
    by (subst rowKeys_loop.simps) (simp add: k2 s2)
  finally have eq: "rowKeys_of ''foo'' 4294080000 4294080001 =
        rowKeys_loop ''foo'' 3951104 4294080000 [''foo_1775'', ''foo_0'']" .
  have "\<not> (4294724608 :: uint32) \<le> 4294080000" by simp
  moreover have "(3951104 :: uint32) + of_nat 3549 * Month_sec = 4294724608"
    by (simp add: Month_sec_def)
  ultimately have "\<not> (3951104 :: uint32) + of_nat 3549 * Month_sec \<le> 4294080000"
    by simp
  from rowKeys_loop_exit [OF this, of "''foo''" "[''foo_1775'', ''foo_0'']"] eq
  show ?thesis by auto
qed

section \<open>Search results\<close>

text \<open>
  C9. A search that builds a read request (\<open>start < end\<close>) and whose context is canceled
  before a worker takes the request from the queue returns an empty result with no error,
  and the query is never executed. "Canceled before the request is dequeued" covers both
  cases: the context is already done when \<^verbatim>\<open>SearchTable\<close> offers the request to the queue,
  or the request is enqueued and the context is done when the worker takes it. A canceled
  context stays canceled (third assumption).
\<close>

theorem search_canceled_before_dequeue:
  assumes "start < endTs"
    and "ctx_done_at_enqueue s \<or> (queue_has_room s \<and> ctx_done_at_dequeue s)"
    and "ctx_done_at_enqueue s \<longrightarrow> ctx_done_at_dequeue s"
  shows "SearchTable spans s sess key table start endTs =
           Some \<lparr>itgens = [], err = None, queries = 0\<rparr>"
proof -
  obtain ks where ks: "rowKeys_of key start endTs = Some ks"
    using rowKeys_of_total by blast
  have ne: "\<not> endTs \<le> start" using assms(1) by simp
  have cw: "first_select s = Enqueued \<Longrightarrow> ctx_done_at_dequeue s"
    using assms(2,3) by (auto simp: first_select_def split: if_splits)
  have nf: "first_select s \<noteq> QueueFull"
    using assms(2) by (auto simp: first_select_def)
  show ?thesis
  proof (cases "first_select s")
    case CtxDoneBeforeEnqueue
    then show ?thesis by (simp add: SearchTable_def Let_def ne ks)
  next
    case Enqueued
    then show ?thesis using cw [OF Enqueued]
      by (cases "second_select s") (simp_all add: SearchTable_def ne ks processReadQueue_def)
  next
    case QueueFull
    then show ?thesis using nf by simp
  qed
qed

lemma scan_rows_T0:
  "scan_rows spans rs acc = (gens, None) \<Longrightarrow>
   map T0 gens = map T0 acc @ map (\<lambda>r. uint32_of_int (fst r)) rs"
proof (induction rs arbitrary: acc)
  case Nil
  then show ?case by simp
next
  case (Cons r rs)
  obtain ts b where r: "r = (ts, b)" by (cases r)
  show ?case
  proof (cases "NewGen spans b (uint32_of_int ts)")
    case (Inl e)
    then show ?thesis using Cons.prems by (simp add: r split: if_splits)
  next
    case (Inr g)
    then have g: "T0 g = uint32_of_int ts"
      by (auto simp: NewGen_def split: if_splits)
    have "scan_rows spans rs (acc @ [g]) = (gens, None)"
      using Cons.prems Inr by (simp add: r split: if_splits)
    from Cons.IH [OF this] show ?thesis by (simp add: r g)
  qed
qed

lemma row_ok_ts: "row_ok spans (ts, b) = row_ok spans (ts', b)"
  by (simp add: row_ok_def NewGen_def)

lemma scan_rows_ok_iff:
  "(\<exists>gens. scan_rows spans rs acc = (gens, None)) \<longleftrightarrow> (\<forall>r \<in> set rs. row_ok spans r)"
proof (induction rs arbitrary: acc)
  case Nil
  then show ?case by simp
next
  case (Cons r rs)
  obtain ts b where r: "r = (ts, b)" by (cases r)
  show ?case
  proof (cases "NewGen spans b (uint32_of_int ts)")
    case (Inl e)
    then show ?thesis by (auto simp: r row_ok_def)
  next
    case (Inr g)
    then have "2 \<le> length b" by (auto simp: NewGen_def split: if_splits)
    then show ?thesis using Inr Cons.IH [of "acc @ [g]"] by (simp add: r row_ok_def)
  qed
qed

lemma scan_rows_T0': "scan_rows spans rs [] = (gens, None) \<Longrightarrow> map T0 gens = map row_T0 rs"
  using scan_rows_T0 [of spans rs "[]" gens] by (simp add: row_T0_def)

lemma map_T0_sort: "map T0 (IterGensAsc_sort gens) = sort (map T0 gens)"
proof -
  have "mset (map T0 (sort_key T0 gens)) = mset (map T0 gens)" by simp
  moreover have "sorted (map T0 (sort_key T0 gens))" by (rule sorted_sort_key)
  ultimately show ?thesis
    unfolding IterGensAsc_sort_def by (rule properties_for_sort [symmetric])
qed

lemma collect_itgens_T0:
  assumes "collect_itgens spans it = (gens, None)"
  shows "map T0 gens = [] \<or> map T0 gens = sort (map row_T0 (rows it))"
proof -
  obtain g e where sc: "scan_rows spans (rows it) [] = (g, e)" by (cases "scan_rows spans (rows it) []")
  show ?thesis
  proof (cases e)
    case (Some x)
    then show ?thesis using assms sc by (simp add: collect_itgens_def)
  next
    case None
    have g: "map T0 g = map row_T0 (rows it)" using sc None by (simp add: scan_rows_T0')
    show ?thesis
    proof (cases "close_err it")
      case (Some x)
      then show ?thesis using assms sc None by (auto simp: collect_itgens_def split: if_splits)
    next
      case N: None
      then have "gens = IterGensAsc_sort g" using assms sc None by (simp add: collect_itgens_def)
      then show ?thesis by (simp add: map_T0_sort g)
    qed
  qed
qed

lemma SearchTable_success:
  assumes "SearchTable spans s sess key table start endTs = Some r" and "err r = None"
  shows "itgens r = [] \<or>
         (\<exists>ks. rowKeys_of key start endTs = Some ks \<and> start < endTs \<and>
               first_select s = Enqueued \<and> second_select s = Received \<and>
               \<not> ctx_done_at_dequeue s \<and> \<not> wait_too_long s \<and>
               collect_itgens spans (sess (query_text table) ks endTs) = (itgens r, None))"
proof (cases "endTs \<le> start")
  case True
  then show ?thesis using assms by (auto simp: SearchTable_def Let_def)
next
  case False
  obtain ks where ks: "rowKeys_of key start endTs = Some ks" using rowKeys_of_total by blast
  show ?thesis
  proof (cases "first_select s")
    case CtxDoneBeforeEnqueue
    then show ?thesis using assms False ks by (auto simp: SearchTable_def Let_def)
  next
    case QueueFull
    then show ?thesis using assms False ks by (auto simp: SearchTable_def Let_def)
  next
    case Enqueued
    show ?thesis
    proof (cases "second_select s")
      case CtxDoneBeforeResult
      then show ?thesis using assms False ks Enqueued
        by (auto simp: SearchTable_def Let_def split: prod.splits)
    next
      case Received
      show ?thesis
      proof (cases "ctx_done_at_dequeue s \<or> wait_too_long s")
        case True
        then show ?thesis using assms False ks Enqueued Received
          by (auto simp: SearchTable_def Let_def processReadQueue_def split: if_splits)
      next
        case nw: False
        obtain g e where c: "collect_itgens spans (sess (query_text table) ks endTs) = (g, e)"
          by (cases "collect_itgens spans (sess (query_text table) ks endTs)")
        have "r = \<lparr>itgens = g, err = e, queries = 1\<rparr>"
          using assms(1) False ks Enqueued Received nw c
          by (simp add: SearchTable_def Let_def processReadQueue_def)
        then have "itgens r = g" "e = None" using assms(2) by simp_all
        then show ?thesis using False ks Enqueued Received nw c by auto
      qed
    qed
  qed
qed

lemma SearchTable_scans:
  assumes "scans_rows s" and "start < endTs" and "rowKeys_of key start endTs = Some ks"
  shows "SearchTable spans s sess key table start endTs =
           (case collect_itgens spans (sess (query_text table) ks endTs) of
              (g, e) \<Rightarrow> Some \<lparr>itgens = g, err = e, queries = 1\<rparr>)"
proof -
  have "\<not> endTs \<le> start" using assms(2) by simp
  then show ?thesis using assms(1,3)
    by (simp add: SearchTable_def Let_def processReadQueue_def scans_rows_def)
qed

lemma SearchTable_no_scan:
  assumes "\<not> (scans_rows s \<and> start < endTs)"
  shows "SearchTable spans s sess key table start endTs =
         SearchTable spans s sess' key table start endTs"
proof (cases "endTs \<le> start")
  case True
  then show ?thesis by (simp add: SearchTable_def)
next
  case False
  then have "start < endTs" by (simp add: not_le)
  then have ns: "\<not> scans_rows s" using assms by simp
  obtain ks where ks: "rowKeys_of key start endTs = Some ks" using rowKeys_of_total by blast
  show ?thesis
  proof (cases "first_select s")
    case CtxDoneBeforeEnqueue
    then show ?thesis using False ks by (simp add: SearchTable_def Let_def)
  next
    case QueueFull
    then show ?thesis using False ks by (simp add: SearchTable_def Let_def)
  next
    case Enqueued
    show ?thesis
    proof (cases "second_select s")
      case CtxDoneBeforeResult
      then show ?thesis using False ks Enqueued
        by (simp add: SearchTable_def Let_def processReadQueue_def)
    next
      case Received
      then have "ctx_done_at_dequeue s \<or> wait_too_long s"
        using ns Enqueued by (simp add: scans_rows_def)
      then show ?thesis using False ks Enqueued Received
        by (auto simp: SearchTable_def Let_def processReadQueue_def)
    qed
  qed
qed

lemma digit_char_not_underscore: "d < 10 \<Longrightarrow> digit_char d \<noteq> CHR ''_''"
proof -
  assume "d < 10"
  then have "d \<in> {0,1,2,3,4,5,6,7,8,9}" by auto
  then show ?thesis by (auto simp: digit_char_def)
qed

lemma underscore_notin_dec: "CHR ''_'' \<notin> set (dec n)"
proof (induction n rule: dec.induct)
  case (1 n)
  show ?case
  proof (cases "n < 10")
    case True
    then show ?thesis using digit_char_not_underscore [of n] by (simp add: dec_lt10)
  next
    case False
    then show ?thesis using 1 digit_char_not_underscore [of "n mod 10"]
      by (simp add: dec_ge10)
  qed
qed

lemma first_occurrence_unique:
  "x \<notin> set xs \<Longrightarrow> x \<notin> set ys \<Longrightarrow> xs @ x # xs' = ys @ x # ys' \<Longrightarrow> xs = ys"
proof (induction xs arbitrary: ys)
  case Nil
  then show ?case by (cases ys) auto
next
  case (Cons a xs)
  then show ?case by (cases ys) auto
qed

lemma row_key_same_key:
  assumes "row_key a x = row_key b y"
  shows "a = b"
proof -
  let ?dx = "dec (unat (x div Month_sec))" and ?dy = "dec (unat (y div Month_sec))"
  have "rev (a @ CHR ''_'' # ?dx) = rev (b @ CHR ''_'' # ?dy)"
    using assms by (simp add: row_key_def)
  then have "rev ?dx @ CHR ''_'' # rev a = rev ?dy @ CHR ''_'' # rev b" by simp
  moreover have "CHR ''_'' \<notin> set (rev ?dx)" "CHR ''_'' \<notin> set (rev ?dy)"
    using underscore_notin_dec by simp_all
  ultimately have "rev ?dx = rev ?dy" by (rule first_occurrence_unique [rotated 2])
  then show ?thesis using assms by (simp add: row_key_def)
qed

lemma database_after_row_key:
  "database_after evs table (k, ts) = Some d \<Longrightarrow> \<exists>key. k = row_key key ts"
proof (induction evs arbitrary: d rule: rev_induct)
  case Nil
  then show ?case by (simp add: database_after_def)
next
  case (snoc ev evs)
  have step: "database_after (evs @ [e]) = apply_event (database_after evs) e" for e
    by (simp add: database_after_def)
  show ?case
  proof (cases ev)
    case (ChunkInserted tb key t0 data)
    show ?thesis
    proof (cases "tb = table \<and> (k, ts) = (row_key key t0, t0)")
      case True
      then show ?thesis by blast
    next
      case False
      then have "database_after (evs @ [ev]) table (k, ts) = database_after evs table (k, ts)"
        by (auto simp: step ChunkInserted)
      then have "database_after evs table (k, ts) = Some d" using snoc.prems by simp
      then show ?thesis by (rule snoc.IH)
    qed
  next
    case (RowExpired tb k' ts')
    have "database_after evs table (k, ts) = Some d"
      using snoc.prems by (auto simp: step RowExpired split: if_splits)
    then show ?thesis using snoc.IH by blast
  qed
qed

lemma rowKeys_loop_exit_keys:
  "\<not> month + of_nat j * Month_sec \<le> end_month \<Longrightarrow>
   \<exists>r. rowKeys_loop key month end_month acc = Some (acc @ r) \<and>
       (\<forall>k \<in> set r. \<exists>m. k = row_key key m)"
proof (induction j arbitrary: month acc)
  case 0
  then have "rowKeys_loop key month end_month acc = Some (acc @ [])"
    by (subst rowKeys_loop.simps) simp
  then show ?case by fastforce
next
  case (Suc j)
  show ?case
  proof (cases "month \<le> end_month")
    case False
    then have "rowKeys_loop key month end_month acc = Some (acc @ [])"
      by (subst rowKeys_loop.simps) simp
    then show ?thesis by fastforce
  next
    case True
    have "\<not> (month + Month_sec) + of_nat j * Month_sec \<le> end_month"
      using Suc.prems by (simp add: algebra_simps)
    then obtain r where r:
      "rowKeys_loop key (month + Month_sec) end_month (acc @ [row_key key month]) =
         Some ((acc @ [row_key key month]) @ r)" "\<forall>k \<in> set r. \<exists>m. k = row_key key m"
      using Suc.IH by blast
    then have "rowKeys_loop key month end_month acc = Some (acc @ (row_key key month # r))"
      using True by (subst rowKeys_loop.simps) simp
    moreover have "\<forall>k \<in> set (row_key key month # r). \<exists>m. k = row_key key m"
      using r(2) by auto
    ultimately show ?thesis by blast
  qed
qed

lemma rowKeys_of_keys:
  assumes "rowKeys_of key start endTs = Some ks"
  shows "\<forall>k \<in> set ks. \<exists>m. k = row_key key m"
proof -
  have "\<not> (4294080512 :: uint32) \<le> end_month_of endTs"
    using end_month_le [of endTs] by (simp add: word_le_nat_alt)
  then have "\<not> start_month_of start +
      of_nat (unat (8386876 * 2562436573 - of_nat (unat start div 2419200) :: uint32)) * Month_sec
      \<le> end_month_of endTs"
    unfolding start_month_word month_word_reaches_top .
  from rowKeys_loop_exit_keys [OF this, of key "[]"] assms show ?thesis
    by (auto simp: rowKeys_of_def)
qed

lemma row_T0_sint: "row_T0 (sint ts, d) = ts"
  by (simp add: row_T0_def uint32_of_int_def)

lemma select_rows_T0:
  "map row_T0 (select_rows tbl scan ks e) =
   map snd (filter (\<lambda>(k, ts). k \<in> set ks \<and> sint ts < sint e \<and> tbl (k, ts) \<noteq> None) scan)"
proof (induction scan)
  case Nil
  then show ?case by (simp add: select_rows_def List.map_filter_simps)
next
  case (Cons x xs)
  obtain k ts where x: "x = (k, ts)" by (cases x)
  show ?case using Cons
    by (auto simp: select_rows_def List.map_filter_simps x row_T0_sint split: option.splits)
qed

lemma select_rows_distinct:
  assumes "distinct scan"
    and tbl: "\<And>k ts d. tbl (k, ts) = Some d \<Longrightarrow> \<exists>key. k = row_key key ts"
    and ks: "\<forall>k \<in> set ks. \<exists>m. k = row_key key0 m"
  shows "distinct (map row_T0 (select_rows tbl scan ks e))"
proof -
  let ?P = "\<lambda>(k, ts). k \<in> set ks \<and> sint ts < sint e \<and> tbl (k, ts) \<noteq> None"
  have "inj_on snd (set (filter ?P scan))"
  proof (rule inj_onI)
    fix p q assume p: "p \<in> set (filter ?P scan)" and q: "q \<in> set (filter ?P scan)"
      and eq: "snd p = snd q"
    obtain k1 t where pk: "p = (k1, t)" by (cases p)
    obtain k2 where qk: "q = (k2, t)" using eq pk by (cases q) simp
    from p pk obtain a where a: "k1 = row_key a t" and k1: "k1 \<in> set ks"
      using tbl [of k1 t] by auto
    from q qk obtain b where b: "k2 = row_key b t" and k2: "k2 \<in> set ks"
      using tbl [of k2 t] by auto
    from k1 ks obtain m1 where "k1 = row_key key0 m1" by blast
    then have "a = key0" using a row_key_same_key [of a t key0 m1] by simp
    moreover from k2 ks obtain m2 where "k2 = row_key key0 m2" by blast
    then have "b = key0" using b row_key_same_key [of b t key0 m2] by simp
    ultimately show "p = q" using a b pk qk by simp
  qed
  moreover have "distinct (filter ?P scan)" using assms(1) by simp
  ultimately show ?thesis
    unfolding select_rows_T0 by (simp add: distinct_map)
qed

lemma select_rows_mset:
  assumes "mset scan' = mset scan"
  shows "mset (select_rows tbl scan' ks e) = mset (select_rows tbl scan ks e)"
proof -
  have "mset (List.map_filter f xs) =
          image_mset (the \<circ> f) (filter_mset (\<lambda>x. f x \<noteq> None) (mset xs))"
    for f :: "string \<times> uint32 \<Rightarrow> (int \<times> byte list) option" and xs
    by (simp add: List.map_filter_def)
  then show ?thesis unfolding select_rows_def using assms by (simp only:)
qed

lemma query_table_text: "query_table (query_text table) = Some table"
  by (simp add: query_table_def query_text_def Let_def)

lemma NewGen_row_gen:
  "NewGen spans b (uint32_of_int ts) = Inr g \<Longrightarrow> g = row_gen spans (ts, b)"
  by (auto simp: NewGen_def row_gen_def split: if_splits)

lemma scan_rows_gens:
  "scan_rows spans rs acc = (gens, None) \<Longrightarrow> gens = acc @ map (row_gen spans) rs"
proof (induction rs arbitrary: acc)
  case Nil
  then show ?case by simp
next
  case (Cons r rs)
  obtain ts b where r: "r = (ts, b)" by (cases r)
  show ?case
  proof (cases "NewGen spans b (uint32_of_int ts)")
    case (Inl e)
    then show ?thesis using Cons.prems by (simp add: r split: if_splits)
  next
    case (Inr g)
    then have g: "g = row_gen spans (ts, b)" by (rule NewGen_row_gen)
    have "scan_rows spans rs (acc @ [g]) = (gens, None)"
      using Cons.prems Inr by (simp add: r split: if_splits)
    from Cons.IH [OF this] show ?thesis by (simp add: r g)
  qed
qed

lemma sorted_key_unique:
  assumes "mset xs = mset ys" and "sorted (map f xs)" and "sorted (map f ys)"
    and "distinct (map f xs)"
  shows "xs = ys"
proof -
  have m: "mset (map f xs) = mset (map f ys)" using assms(1) by simp
  then have d: "distinct (map f ys)"
    using assms(4) mset_eq_imp_distinct_iff by blast
  have s: "set (map f xs) = set (map f ys)" using m by (rule mset_eq_setD)
  have eq: "map f xs = map f ys"
    using assms(2,3,4) d s by (intro sorted_distinct_set_unique)
  have "set xs = set ys" using assms(1) by (rule mset_eq_setD)
  moreover have "inj_on f (set xs)" using assms(4) by (simp add: distinct_map)
  ultimately have "inj_on f (set xs \<union> set ys)" by simp
  then show ?thesis using eq by (simp add: inj_on_map_eq_map)
qed

lemma collect_itgens_perm_eq:
  assumes c: "collect_itgens spans it = (gens, None)"
    and m: "mset (rows it') = mset (rows it)" and ce: "close_err it' = close_err it"
    and d: "distinct (map row_T0 (rows it))"
  shows "collect_itgens spans it' = (gens, None)"
proof -
  obtain g e where sc: "scan_rows spans (rows it) [] = (g, e)" by (cases "scan_rows spans (rows it) []")
  have e: "e = None" using c sc by (cases e) (simp_all add: collect_itgens_def)
  then have "\<forall>r \<in> set (rows it). row_ok spans r"
    using sc scan_rows_ok_iff [of spans "rows it" "[]"] by blast
  moreover have "set (rows it') = set (rows it)" using m by (rule mset_eq_setD)
  ultimately have "\<exists>g'. scan_rows spans (rows it') [] = (g', None)"
    using scan_rows_ok_iff [of spans "rows it'" "[]"] by simp
  then obtain g' where sc': "scan_rows spans (rows it') [] = (g', None)" by blast
  have g: "g = map (row_gen spans) (rows it)" using sc e scan_rows_gens [of spans "rows it" "[]" g] by simp
  have g': "g' = map (row_gen spans) (rows it')" using sc' scan_rows_gens [of spans "rows it'" "[]" g'] by simp
  have mg: "mset g' = mset g" using m by (simp add: g g')
  have T: "map T0 g = map row_T0 (rows it)" using sc e by (simp add: scan_rows_T0')
  show ?thesis
  proof (cases "close_err it")
    case (Some x)
    then show ?thesis using c sc sc' e ce by (auto simp: collect_itgens_def split: if_splits)
  next
    case None
    then have gens: "gens = IterGensAsc_sort g" using c sc e by (simp add: collect_itgens_def)
    have c': "collect_itgens spans it' = (IterGensAsc_sort g', None)"
      using None ce sc' by (simp add: collect_itgens_def)
    have "IterGensAsc_sort g' = IterGensAsc_sort g"
    proof (rule sorted_key_unique [where f = T0])
      show "mset (IterGensAsc_sort g') = mset (IterGensAsc_sort g)"
        using mg by (simp add: IterGensAsc_sort_def)
      show "sorted (map T0 (IterGensAsc_sort g'))" by (simp add: IterGensAsc_sort_def)
      show "sorted (map T0 (IterGensAsc_sort g))" by (simp add: IterGensAsc_sort_def)
      have "mset (map T0 (IterGensAsc_sort g')) = mset (map T0 g)"
        using mg by (simp add: IterGensAsc_sort_def)
      then show "distinct (map T0 (IterGensAsc_sort g'))"
        using d T mset_eq_imp_distinct_iff by metis
    qed
    then show ?thesis using c' gens by simp
  qed
qed

text \<open>
  Below the top of the \<^verbatim>\<open>uint32\<close> range no row key is listed twice in the query.
\<close>

lemma rowKeys_of_nowrap_distinct:
  assumes "start < endTs" and "unat endTs - 1 < 4294080000"
    and "rowKeys_of key start endTs = Some ks"
  shows "distinct ks"
proof -
  have "ks = map (\<lambda>j. key @ ''_'' @ dec j)
               [unat start div 2419200..<(unat endTs - 1) div 2419200 + 1]"
    using rowKeys_of_nowrap [OF assms(1,2), of key] assms(3) by simp
  then show ?thesis by (simp add: distinct_map inj_on_def dec_inj)
qed

text \<open>
  Whatever the session delivers, a successful search returns its generators in ascending
  order of \<open>T0\<close>.
\<close>

lemma search_result_sorted:
  assumes "SearchTable spans s sess key table start endTs = Some r" and "err r = None"
  shows "sorted (map T0 (itgens r))"
proof -
  from SearchTable_success [OF assms] consider "itgens r = []"
    | ks where "collect_itgens spans (sess (query_text table) ks endTs) = (itgens r, None)"
    by blast
  then show ?thesis
  proof cases
    case 1
    then show ?thesis by simp
  next
    case 2
    from collect_itgens_T0 [OF 2] show ?thesis by auto
  qed
qed

lemma rowKeys_foo_two_months: "rowKeys_of ''foo'' 0 3000000 = Some [''foo_0'', ''foo_1'']"
  using rowKeys_of_nowrap [of 0 3000000 "''foo''"]
  by (simp add: upt_conv_Cons dec_lt10 digit_char_def)

lemma scans_rows_idle: "scans_rows sched_idle"
  by (simp add: scans_rows_def sched_idle_def first_select_def second_select_def)

text \<open>
  C8. For every state of the database that chunk inserts (and row expiries) can produce,
  every order in which the database visits its rows, and every successful search, the
  list of iterator generators the search returns is strictly increasing in \<open>T0\<close>; and
  the search returns that same list for every other order of visiting the same rows.
  The order is strict because the rows of one search have pairwise distinct timestamps:
  a chunk with timestamp \<open>ts\<close> lies in the partition \<open>key_(ts / Month_sec)\<close> and nowhere
  else, and within a partition the primary key admits one row for each timestamp.
\<close>

theorem search_result_order:
  assumes "distinct scan"
    and "SearchTable spans s (cassandra (database_after evs) scan ce) key table start endTs = Some r"
    and "err r = None"
  shows "sorted_wrt (<) (map T0 (itgens r)) \<and>
         (\<forall>scan'. distinct scan' \<and> set scan' = set scan \<longrightarrow>
            SearchTable spans s (cassandra (database_after evs) scan' ce) key table start endTs =
              Some r)"
proof (cases "scans_rows s \<and> start < endTs")
  case False
  have "itgens r = []"
    using SearchTable_success [OF assms(2,3)] False by (auto simp: scans_rows_def)
  moreover have "SearchTable spans s sess' key table start endTs = Some r" for sess'
    using SearchTable_no_scan
      [OF False, of spans "cassandra (database_after evs) scan ce" key table sess'] assms(2)
    by simp
  ultimately show ?thesis by simp
next
  case True
  obtain ks where ks: "rowKeys_of key start endTs = Some ks" using rowKeys_of_total by blast
  let ?db = "database_after evs"
  let ?it = "cassandra ?db scan ce (query_text table) ks endTs"
  have it: "\<And>sc. cassandra ?db sc ce (query_text table) ks endTs =
              \<lparr>rows = select_rows (?db table) sc ks endTs, close_err = ce\<rparr>"
    by (simp add: cassandra_def query_table_text)
  have c: "collect_itgens spans ?it = (itgens r, None)"
    using SearchTable_scans [of s start endTs key ks spans _ table] True ks assms(2,3)
    by (auto split: prod.splits)
  have r: "r = \<lparr>itgens = itgens r, err = None, queries = 1\<rparr>"
    using SearchTable_scans [of s start endTs key ks spans _ table] True ks assms(2,3) c
    by auto
  have d: "distinct (map row_T0 (rows ?it))"
    unfolding it using assms(1) database_after_row_key rowKeys_of_keys [OF ks]
    by (simp add: select_rows_distinct)
  have T: "map T0 (itgens r) = [] \<or> map T0 (itgens r) = sort (map row_T0 (rows ?it))"
    using c by (rule collect_itgens_T0)
  then have srt: "sorted (map T0 (itgens r))" by auto
  have "distinct (sort (map row_T0 (rows ?it)))" using d by simp
  then have "distinct (map T0 (itgens r))" using T by auto
  then have strict: "sorted_wrt (<) (map T0 (itgens r))" using srt by (simp add: strict_sorted_iff)
  have "SearchTable spans s (cassandra ?db scan' ce) key table start endTs = Some r"
    if "distinct scan'" and "set scan' = set scan" for scan'
  proof -
    have "mset scan' = mset scan"
      using that assms(1) by (simp add: set_eq_iff_mset_eq_distinct)
    then have "mset (select_rows (?db table) scan' ks endTs) =
               mset (select_rows (?db table) scan ks endTs)"
      by (rule select_rows_mset)
    then have m: "mset (rows (cassandra ?db scan' ce (query_text table) ks endTs)) = mset (rows ?it)"
      by (simp add: it)
    have ce: "close_err (cassandra ?db scan' ce (query_text table) ks endTs) = close_err ?it"
      by (simp add: it)
    have "collect_itgens spans (cassandra ?db scan' ce (query_text table) ks endTs) = (itgens r, None)"
      using c m ce d by (rule collect_itgens_perm_eq)
    then have "SearchTable spans s (cassandra ?db scan' ce) key table start endTs =
                 Some \<lparr>itgens = itgens r, err = None, queries = 1\<rparr>"
      using SearchTable_scans [of s start endTs key ks spans _ table] True ks by simp
    then show ?thesis using r by simp
  qed
  then show ?thesis using strict by blast
qed

lemma ex_row_keys:
  "row_key ''foo'' 2419200 = ''foo_1''" "row_key ''foo'' 600 = ''foo_0''"
  "row_key ''bar'' 600 = ''bar_0''"
  by (simp_all add: row_key_def Month_sec_def dec_lt10 digit_char_def)

lemma ex_database:
  "database_after ex_events ''metric_1'' =
     [(''foo_1'', 2419200) \<mapsto> [1, 3, 7], (''foo_0'', 600) \<mapsto> [1, 3, 9],
      (''bar_0'', 600) \<mapsto> [1, 3, 5]]"
  by (simp add: database_after_def ex_events_def ex_row_keys)

theorem search_result_order_witness:
  "SearchTable [60, 120, 300, 600] sched_idle
     (cassandra (database_after ex_events) ex_scan None) ''foo'' ''metric_1'' 0 3000000 =
     Some \<lparr>itgens = [\<lparr>B = [9], T0 = 600, Span = 600\<rparr>, \<lparr>B = [7], T0 = 2419200, Span = 600\<rparr>],
           err = None, queries = 1\<rparr> \<and>
   sorted_wrt (<) [600, 2419200 :: uint32] \<and>
   SearchTable [60, 120, 300, 600] sched_idle
     (cassandra (database_after ex_events) (rev ex_scan) None) ''foo'' ''metric_1'' 0 3000000 =
     Some \<lparr>itgens = [\<lparr>B = [9], T0 = 600, Span = 600\<rparr>, \<lparr>B = [7], T0 = 2419200, Span = 600\<rparr>],
           err = None, queries = 1\<rparr>"
proof -
  let ?r = "\<lparr>itgens = [\<lparr>B = [9], T0 = 600, Span = 600\<rparr>, \<lparr>B = [7], T0 = 2419200, Span = 600\<rparr>],
           err = None, queries = 1\<rparr>"
  have rows: "select_rows (database_after ex_events ''metric_1'') ex_scan [''foo_0'', ''foo_1''] 3000000 =
                [(2419200, [1, 3, 7]), (600, [1, 3, 9])]"
    by (simp add: ex_database select_rows_def ex_scan_def List.map_filter_simps)
  have run: "SearchTable [60, 120, 300, 600] sched_idle
     (cassandra (database_after ex_events) ex_scan None) ''foo'' ''metric_1'' 0 3000000 = Some ?r"
    by (simp add: SearchTable_scans [OF scans_rows_idle _ rowKeys_foo_two_months] cassandra_def
        query_table_text rows collect_itgens_def NewGen_def uint32_of_int_def IterGensAsc_sort_def)
  have e: "err ?r = None" by simp
  have d: "distinct ex_scan" by (simp add: ex_scan_def)
  have d': "distinct (rev ex_scan) \<and> set (rev ex_scan) = set ex_scan" using d by simp
  show ?thesis
    using run search_result_order [OF d run e] d' by simp
qed

theorem search_canceled_before_dequeue_witness:
  "(0::uint32) < 3000000 \<and>
   SearchTable [60, 120, 300, 600]
     (sched_idle\<lparr>ctx_done_at_dequeue := True, ctx_done_at_receive := True\<rparr>)
     store_two ''foo'' ''metric_1'' 0 3000000 = Some \<lparr>itgens = [], err = None, queries = 0\<rparr>"
  using search_canceled_before_dequeue
    [of 0 3000000 "sched_idle\<lparr>ctx_done_at_dequeue := True, ctx_done_at_receive := True\<rparr>"]
  by (simp add: sched_idle_def)

section \<open>Writer durability\<close>

lemma retry_loop_from:
  assumes "\<forall>i. k \<le> i \<and> i < n \<longrightarrow> insertChunk i \<noteq> None" and "insertChunk n = None"
    and "k \<le> n" and "insert_calls lg = k"
  shows "retry_loop insertChunk keyStr t0 ttl buf (of_nat k) lg =
           Some (lg\<lparr>insert_calls := n + 1,
                    inserted := inserted lg @ [(keyStr, t0, ttl, buf)],
                    synced := synced lg @ [t0],
                    persist_msgs := persist_msgs lg @ [(keyStr, t0)],
                    sleeps_ns := sleeps_ns lg @ map (\<lambda>a. sleepDuration (of_nat a)) [k..<n],
                    chunkSaveOk := chunkSaveOk lg + 1,
                    chunkSaveFail := chunkSaveFail lg + (n - k)\<rparr>)"
  using assms(1,3,4)
proof (induction "n - k" arbitrary: k lg)
  case 0
  then have "k = n" by simp
  then show ?case using 0 assms(2)
    by (subst retry_loop.simps) simp
next
  case (Suc d)
  then have kn: "k < n" by simp
  then have "insertChunk k \<noteq> None" using Suc.prems(1) by blast
  then obtain e where e: "insertChunk k = Some e" by blast
  let ?lg = "lg\<lparr>insert_calls := insert_calls lg + 1,
                 chunkSaveFail := chunkSaveFail lg + 1,
                 sleeps_ns := sleeps_ns lg @ [sleepDuration (of_nat k)]\<rparr>"
  have step: "retry_loop insertChunk keyStr t0 ttl buf (of_nat k) lg =
              retry_loop insertChunk keyStr t0 ttl buf (of_nat (Suc k)) ?lg"
    using e Suc.prems(3)
    by (subst retry_loop.simps) (simp add: add.commute)
  have IH: "retry_loop insertChunk keyStr t0 ttl buf (of_nat (Suc k)) ?lg =
           Some (?lg\<lparr>insert_calls := n + 1,
                    inserted := inserted ?lg @ [(keyStr, t0, ttl, buf)],
                    synced := synced ?lg @ [t0],
                    persist_msgs := persist_msgs ?lg @ [(keyStr, t0)],
                    sleeps_ns := sleeps_ns ?lg @ map (\<lambda>a. sleepDuration (of_nat a)) [Suc k..<n],
                    chunkSaveOk := chunkSaveOk ?lg + 1,
                    chunkSaveFail := chunkSaveFail ?lg + (n - Suc k)\<rparr>)"
    by (rule Suc(1)) (use Suc kn in simp_all)
  have upt: "[k..<n] = k # [Suc k..<n]" using kn by (simp add: upt_conv_Cons)
  show ?case unfolding step IH upt using kn by simp
qed

lemma sint_small:
  fixes m :: nat
  assumes "m < 2 ^ 63"
  shows "sint (of_nat m :: 64 word) = int m"
proof -
  have "sint (of_nat m :: 64 word) = signed_take_bit 63 (int m)"
    by (simp add: signed_of_nat)
  also have "\<dots> = int m"
    using assms by (simp add: signed_take_bit_int_eq_self)
  finally show ?thesis .
qed

lemma sleepDuration_small:
  assumes "a \<le> 92233720368547758"
  shows "sleepDuration (of_nat a) = 1000000 * min (100 * int a) 2000"
proof -
  have w: "100 * (of_nat a :: 64 word) = of_nat (100 * a)" by simp
  have b: "100 * a < 2 ^ 63" using assms by simp
  have s: "sint (100 * (of_nat a :: 64 word)) = 100 * int a"
    unfolding w using sint_small [OF b] by simp
  show ?thesis
  proof (cases "2000 < 100 * int a")
    case True
    have "sint (2000 * Millisecond) = 2000000000" by (simp add: Millisecond_def)
    then show ?thesis using True s by (simp add: sleepDuration_def Let_def)
  next
    case False
    then have a20: "a \<le> 20" by simp
    have "(of_nat (100 * a) :: 64 word) * Millisecond = of_nat (100000000 * a)"
      by (simp add: Millisecond_def)
    moreover have "100000000 * a < 2 ^ 63" using a20 by simp
    ultimately have "sint (100 * (of_nat a :: 64 word) * Millisecond) = int (100000000 * a)"
      unfolding w using sint_small [of "100000000 * a"] by simp
    then show ?thesis using False s by (simp add: sleepDuration_def Let_def)
  qed
qed

text \<open>
  C1. As stated the claim has two exceptions. A request whose span is not a registered
  chunk span makes \<^verbatim>\<open>PrepareChunkData\<close> panic before the retry loop: nothing is inserted.
  And \<^verbatim>\<open>100 * attempts\<close> overflows the 64-bit \<^verbatim>\<open>int\<close> once \<open>attempts\<close> exceeds
  92233720368547758, after which the sleep is no longer \<open>min(100 ms * attempts, 2000 ms)\<close>.
  Amended: for every chunk write request handed to a writer worker whose span is a
  registered chunk span, and any finite number \<open>n\<close> of insert failures before the first
  success, the worker returns after \<open>n + 1\<close> calls of \<^verbatim>\<open>insertChunk\<close> with exactly one
  successful insert (of the encoded chunk) and exactly one call
  \<^verbatim>\<open>SyncChunkSaveState(T0)\<close>; the request is never dropped; and before each retry it
  sleeps \<open>min(100 ms * attempts, 2000 ms)\<close>, where \<open>attempts\<close> counts the failures before the
  one just seen, as long as \<open>attempts\<close> is at most 92233720368547758.
\<close>

theorem writer_retry_until_success:
  assumes "RevChunkSpans (ChunkSpan cwr) = Some spanCode"
    and "\<forall>i < n. insertChunk i \<noteq> None" and "insertChunk n = None"
  shows "write_chunk RevChunkSpans insertChunk cwr writer_log_empty =
           Inr (Some \<lparr>insert_calls = n + 1,
                 inserted = [(Key cwr, ChunkT0 cwr, TTL cwr, 1 # spanCode # ChunkSeries cwr)],
                 synced = [ChunkT0 cwr],
                 persist_msgs = [(Key cwr, ChunkT0 cwr)],
                 sleeps_ns = map (\<lambda>attempts. sleepDuration (of_nat attempts)) [0..<n],
                 chunkSaveOk = 1,
                 chunkSaveFail = n\<rparr>) \<and>
         (\<forall>attempts \<le> 92233720368547758.
            sleepDuration (of_nat attempts) = 1000000 * min (100 * int attempts) 2000)"
proof -
  have "\<forall>i. 0 \<le> i \<and> i < n \<longrightarrow> insertChunk i \<noteq> None" using assms(2) by simp
  from retry_loop_from [OF this assms(3), of writer_log_empty "Key cwr" "ChunkT0 cwr" "TTL cwr"
      "1 # spanCode # ChunkSeries cwr"]
  show ?thesis using assms(1)
    by (simp add: write_chunk_def PrepareChunkData_def writer_log_empty_def sleepDuration_small)
qed

theorem writer_retry_until_success_witness:
  "write_chunk ex_RevChunkSpans (fails_first 3) ex_cwr writer_log_empty =
     Inr (Some \<lparr>insert_calls = 4, inserted = [(''foo'', 600, 3600, [1, 3, 7])], synced = [600],
           persist_msgs = [(''foo'', 600)], sleeps_ns = [0, 100000000, 200000000],
           chunkSaveOk = 1, chunkSaveFail = 3\<rparr>)"
proof -
  have sp: "ex_RevChunkSpans (ChunkSpan ex_cwr) = Some 3"
    by (simp add: ex_RevChunkSpans_def ex_cwr_def)
  have fails: "\<forall>i < 3. fails_first 3 i \<noteq> None" by (simp add: fails_first_def)
  have ok: "fails_first 3 3 = None" by (simp add: fails_first_def)
  note res = writer_retry_until_success
    [of ex_RevChunkSpans ex_cwr 3 3 "fails_first 3", OF sp fails ok]
  have s: "sleepDuration 0 = 0" "sleepDuration 1 = 100000000" "sleepDuration 2 = 200000000"
    using res [THEN conjunct2, rule_format, of 0] res [THEN conjunct2, rule_format, of 1]
      res [THEN conjunct2, rule_format, of 2]
    by simp_all
  show ?thesis
    using res s by (simp add: upt_conv_Cons ex_cwr_def)
qed

text \<open>
  The counterexample to C1 as stated: a request with the span 700, which is not in the
  table of span codes, makes the worker panic, and nothing is inserted, although the
  storage would accept the insert; and when \<open>attempts\<close> has reached 92233720368547759
  the product \<^verbatim>\<open>100 * attempts\<close> has wrapped around to \<open>92 - 2^63\<close>, so the worker sleeps
  92 ms instead of 2000 ms.
\<close>

theorem writer_retry_counterexample:
  "write_chunk ex_RevChunkSpans (fails_first 0) (ex_cwr\<lparr>ChunkSpan := 700\<rparr>) writer_log_empty =
     Inl ChunkSpanInvalid \<and>
   (\<exists>lg. write_chunk ex_RevChunkSpans (fails_first 92233720368547760) ex_cwr writer_log_empty =
            Inr (Some lg) \<and>
          sleeps_ns lg ! 92233720368547759 = 92000000 \<and>
          1000000 * min (100 * int 92233720368547759) 2000 = 2000000000)"
proof -
  let ?n = "92233720368547760 :: nat"
  let ?buf = "1 # 3 # ChunkSeries ex_cwr"
  have a: "write_chunk ex_RevChunkSpans (fails_first 0) (ex_cwr\<lparr>ChunkSpan := 700\<rparr>)
             writer_log_empty = Inl ChunkSpanInvalid"
    by (simp add: write_chunk_def PrepareChunkData_def ex_RevChunkSpans_def)
  have "\<forall>i. 0 \<le> i \<and> i < ?n \<longrightarrow> fails_first ?n i \<noteq> None"
    by (simp add: fails_first_def)
  moreover have "fails_first ?n ?n = None"
    by (simp add: fails_first_def)
  ultimately have r:
    "retry_loop (fails_first ?n) (Key ex_cwr) (ChunkT0 ex_cwr) (TTL ex_cwr) ?buf (of_nat 0)
       writer_log_empty =
     Some (writer_log_empty
       \<lparr>insert_calls := ?n + 1,
        inserted := inserted writer_log_empty @ [(Key ex_cwr, ChunkT0 ex_cwr, TTL ex_cwr, ?buf)],
        synced := synced writer_log_empty @ [ChunkT0 ex_cwr],
        persist_msgs := persist_msgs writer_log_empty @ [(Key ex_cwr, ChunkT0 ex_cwr)],
        sleeps_ns := sleeps_ns writer_log_empty @ map (\<lambda>a. sleepDuration (of_nat a)) [0..<?n],
        chunkSaveOk := chunkSaveOk writer_log_empty + 1,
        chunkSaveFail := chunkSaveFail writer_log_empty + (?n - 0)\<rparr>)"
    by (rule retry_loop_from) (simp_all add: writer_log_empty_def)
  have d: "sleepDuration (of_nat 92233720368547759) = 92000000"
    by (simp add: sleepDuration_def Let_def Millisecond_def)
  have n: "map (\<lambda>a. sleepDuration (of_nat a)) [0..<?n] ! 92233720368547759 =
           sleepDuration (of_nat 92233720368547759)"
    by (subst nth_map_upt) simp_all
  have sp: "PrepareChunkData ex_RevChunkSpans (ChunkSpan ex_cwr) (ChunkSeries ex_cwr) = Some ?buf"
    by (simp add: PrepareChunkData_def ex_RevChunkSpans_def ex_cwr_def)
  show ?thesis
    using a r d n by (simp add: write_chunk_def sp writer_log_empty_def)
qed

section \<open>Envelope round trip\<close>

lemma unat_byte_of_nat: "n < 256 \<Longrightarrow> unat (byte_of_nat n) = n"
  by (simp add: byte_of_nat_def unat_of_nat)

lemma length_be_bytes [simp]: "length (be_bytes n v) = n"
  by (induction n arbitrary: v) auto

lemma be_value_snoc: "be_value (bs @ [b]) = be_value bs * 256 + unat b"
  by (simp add: be_value_def)

lemma be_value_bytes: "be_value (be_bytes n v) = v mod 256 ^ n"
proof (induction n arbitrary: v)
  case 0
  then show ?case by (simp add: be_value_def)
next
  case (Suc n)
  have "be_value (be_bytes (Suc n) v) = (v div 256 mod 256 ^ n) * 256 + v mod 256"
    by (simp add: be_value_snoc Suc unat_byte_of_nat)
  also have "\<dots> = v mod 256 ^ Suc n"
    by (simp add: mod_mult2_eq)
  finally show ?case .
qed

lemma be_value_bytes_small: "v < 256 ^ n \<Longrightarrow> be_value (be_bytes n v) = v"
  by (simp add: be_value_bytes)

lemma sint_decode_aux:
  fixes i H :: int
  assumes "- H \<le> i" and "i < H"
  shows "(if H \<le> i mod (2 * H) then i mod (2 * H) - 2 * H else i mod (2 * H)) = i"
proof (cases "0 \<le> i")
  case True
  then have "i mod (2 * H) = i" using assms(2) by (simp add: mod_pos_pos_trivial)
  then show ?thesis using assms(2) by simp
next
  case False
  have "0 \<le> i + 2 * H" "i + 2 * H < 2 * H" using False assms(1) by simp_all
  then have "(i + 2 * H) mod (2 * H) = i + 2 * H" by (rule mod_pos_pos_trivial)
  then have "i mod (2 * H) = i + 2 * H" by simp
  then show ?thesis using assms(1) by simp
qed

lemma be_sint_int:
  assumes "0 < n" and "- (2 ^ (8 * n - 1)) \<le> i" and "i < 2 ^ (8 * n - 1)"
  shows "be_sint n (be_int n i) = i"
proof -
  define H :: int where "H = 2 ^ (8 * n - 1)"
  have "(2::int) ^ (8 * n) = 2 ^ Suc (8 * n - 1)" using assms(1) by simp
  then have p2: "(2::int) ^ (8 * n) = 2 * H" by (simp add: H_def)
  have "(256::int) ^ n = 2 ^ (8 * n)" by (simp add: power_mult)
  then have p: "(256::int) ^ n = 2 * H" using p2 by simp
  have lt: "nat (i mod 256 ^ n) < 256 ^ n"
    by (simp add: nat_less_iff)
  have v: "be_value (be_int n i) = nat (i mod 256 ^ n)"
    unfolding be_int_def using lt by (rule be_value_bytes_small)
  have Hpos: "0 < H" by (simp add: H_def)
  have iv: "int (be_value (be_int n i)) = i mod (2 * H)"
    unfolding v p using Hpos by simp
  have c: "(2 ^ (8 * n - 1) \<le> be_value (be_int n i)) \<longleftrightarrow> H \<le> i mod (2 * H)"
  proof -
    have "(2 ^ (8 * n - 1) \<le> be_value (be_int n i)) \<longleftrightarrow>
          int (2 ^ (8 * n - 1)) \<le> int (be_value (be_int n i))"
      by (simp only: of_nat_le_iff)
    then show ?thesis unfolding iv by (simp add: H_def)
  qed
  have "be_sint n (be_int n i) =
        (if H \<le> i mod (2 * H) then i mod (2 * H) - 2 * H else i mod (2 * H))"
    unfolding be_sint_def c iv p2 by simp
  also have "\<dots> = i"
    by (rule sint_decode_aux) (use assms(2,3) in \<open>simp_all add: H_def\<close>)
  finally show ?thesis .
qed

lemma length_be_int [simp]: "length (be_int n i) = n"
  by (simp add: be_int_def)

lemma read_be_bytes: "v < 256 ^ n \<Longrightarrow> read_be n (be_bytes n v @ rest) = Inr (v, rest)"
  by (simp add: read_be_def be_value_bytes_small)

lemma read_sized_append: "read_sized (length s) (s @ rest) = Inr (s, rest)"
  by (simp add: read_sized_def)

lemma read_prefixed_bytes:
  "length s < 256 ^ n \<Longrightarrow> read_prefixed n (be_bytes n (length s) @ s @ rest) = Inr (s, rest)"
  by (simp add: read_prefixed_def read_be_bytes read_sized_append)

lemma ReadMapHeader_Append:
  assumes "sz < 2 ^ 32"
  shows "ReadMapHeaderBytes (AppendMapHeader [] sz @ rest) = Inr (sz, rest)"
proof -
  consider "sz \<le> 15" | "15 < sz" "sz \<le> 65535" | "65535 < sz" by linarith
  then show ?thesis
  proof cases
    case 1
    then show ?thesis
      by (simp add: ReadMapHeaderBytes_def AppendMapHeader_def unat_byte_of_nat)
  next
    case 2
    then have "sz < 256 ^ 2" by simp
    then show ?thesis using 2
      by (simp add: ReadMapHeaderBytes_def AppendMapHeader_def unat_byte_of_nat read_be_bytes
          del: be_bytes.simps)
  next
    case 3
    have "sz < 256 ^ 4" using assms by simp
    then show ?thesis using 3
      by (simp add: ReadMapHeaderBytes_def AppendMapHeader_def unat_byte_of_nat read_be_bytes
          del: be_bytes.simps)
  qed
qed

lemma ReadArrayHeader_Append:
  assumes "sz < 2 ^ 32"
  shows "ReadArrayHeaderBytes (AppendArrayHeader [] sz @ rest) = Inr (sz, rest)"
proof -
  consider "sz \<le> 15" | "15 < sz" "sz \<le> 65535" | "65535 < sz" by linarith
  then show ?thesis
  proof cases
    case 1
    then show ?thesis
      by (simp add: ReadArrayHeaderBytes_def AppendArrayHeader_def unat_byte_of_nat)
  next
    case 2
    then have "sz < 256 ^ 2" by simp
    then show ?thesis using 2
      by (simp add: ReadArrayHeaderBytes_def AppendArrayHeader_def unat_byte_of_nat read_be_bytes
          del: be_bytes.simps)
  next
    case 3
    have "sz < 256 ^ 4" using assms by simp
    then show ?thesis using 3
      by (simp add: ReadArrayHeaderBytes_def AppendArrayHeader_def unat_byte_of_nat read_be_bytes
          del: be_bytes.simps)
  qed
qed

lemma ReadBool_Append: "ReadBoolBytes (AppendBool [] v @ rest) = Inr (v, rest)"
  by (simp add: ReadBoolBytes_def AppendBool_def unat_byte_of_nat)

lemma ReadString_Append:
  assumes "length s < 2 ^ 32"
  shows "ReadStringBytes (AppendString [] s @ rest) = Inr (s, rest)"
proof -
  consider "length s \<le> 31" | "31 < length s" "length s \<le> 255"
    | "255 < length s" "length s \<le> 65535" | "65535 < length s" by linarith
  then show ?thesis
  proof cases
    case 1
    then show ?thesis
      using read_sized_append [of s rest]
      by (simp add: ReadStringBytes_def AppendString_def unat_byte_of_nat)
  next
    case 2
    then have "length s < 256 ^ 1" by simp
    from read_prefixed_bytes [OF this, of rest] show ?thesis using 2
      by (simp add: ReadStringBytes_def AppendString_def unat_byte_of_nat del: be_bytes.simps)
  next
    case 3
    then have "length s < 256 ^ 2" by simp
    from read_prefixed_bytes [OF this, of rest] show ?thesis using 3
      by (simp add: ReadStringBytes_def AppendString_def unat_byte_of_nat del: be_bytes.simps)
  next
    case 4
    have "length s < 256 ^ 4" using assms by simp
    from read_prefixed_bytes [OF this, of rest] show ?thesis using 4 assms
      by (simp add: ReadStringBytes_def AppendString_def unat_byte_of_nat del: be_bytes.simps)
  qed
qed

lemma ReadMapKey_Append:
  "length s < 2 ^ 32 \<Longrightarrow> ReadMapKeyZC (AppendString [] s @ rest) = Inr (s, rest)"
  by (simp add: ReadMapKeyZC_def ReadString_Append)

lemma AppendString_acc: "AppendString b s = b @ AppendString [] s"
  by (simp add: AppendString_def Let_def)

lemma AppendArrayHeader_acc: "AppendArrayHeader b n = b @ AppendArrayHeader [] n"
  by (simp add: AppendArrayHeader_def)

lemma AppendMapHeader_acc: "AppendMapHeader b n = b @ AppendMapHeader [] n"
  by (simp add: AppendMapHeader_def)

lemma AppendBool_acc: "AppendBool b v = b @ AppendBool [] v"
  by (simp add: AppendBool_def)

lemma AppendInt64_acc: "AppendInt64 b w = b @ AppendInt64 [] w"
  by (simp add: AppendInt64_def Let_def)

lemma foldl_AppendString: "foldl AppendString b ss = b @ concat (map (AppendString []) ss)"
proof (induction ss arbitrary: b)
  case Nil
  then show ?case by simp
next
  case (Cons s ss)
  show ?case
    using Cons [of "AppendString b s"] by (simp add: AppendString_acc [of b s])
qed

lemma key_Paths: "[0xa5, 0x50, 0x61, 0x74, 0x68, 0x73] = AppendString [] (ascii ''Paths'')"
  by (simp add: AppendString_def ascii_def byte_of_nat_def)

lemma key_Propagate:
  "[0xa9, 0x50, 0x72, 0x6f, 0x70, 0x61, 0x67, 0x61, 0x74, 0x65] = AppendString [] (ascii ''Propagate'')"
  by (simp add: AppendString_def ascii_def byte_of_nat_def)

lemma map_header_2: "[0x82] = AppendMapHeader [] 2"
  by (simp add: AppendMapHeader_def byte_of_nat_def)

lemma map_header_3: "[0x83] = AppendMapHeader [] 3"
  by (simp add: AppendMapHeader_def byte_of_nat_def)

lemma Marshal_TagDelSeries_eq:
  "MarshalMsg_TagDelSeries z b =
     b @ AppendMapHeader [] 2 @ AppendString [] (ascii ''Paths'') @
     AppendArrayHeader [] (uint32_len (Paths z)) @ concat (map (AppendString []) (Paths z)) @
     AppendString [] (ascii ''Propagate'') @ AppendBool [] (Propagate z)"
proof -
  have "MarshalMsg_TagDelSeries z b =
     b @ [0x82] @ [0xa5, 0x50, 0x61, 0x74, 0x68, 0x73] @
     AppendArrayHeader [] (uint32_len (Paths z)) @ concat (map (AppendString []) (Paths z)) @
     [0xa9, 0x50, 0x72, 0x6f, 0x70, 0x61, 0x67, 0x61, 0x74, 0x65] @ AppendBool [] (Propagate z)"
    unfolding MarshalMsg_TagDelSeries_def Let_def foldl_AppendString
    by (subst AppendBool_acc, subst AppendArrayHeader_acc) simp
  then show ?thesis
    by (simp only: key_Paths key_Propagate map_header_2)
qed

lemma read_strings_concat:
  "list_all (\<lambda>s. length s < 2 ^ 32) ss \<Longrightarrow>
   read_strings (length ss) (concat (map (AppendString []) ss) @ rest) = Inr (ss, rest)"
proof (induction ss)
  case Nil
  then show ?case by simp
next
  case (Cons s ss)
  then show ?case by (simp add: ReadString_Append)
qed

lemma ascii_lengths:
  "length (ascii ''Paths'') < 2 ^ 32" "length (ascii ''Propagate'') < 2 ^ 32"
  by (simp_all add: ascii_def)

lemma ascii_Propagate_neq: "ascii ''Propagate'' \<noteq> ascii ''Paths''"
  by (simp add: ascii_def)

lemma roundtrip_TagDelSeries:
  assumes "valid_TagDelSeries z"
  shows "UnmarshalMsg_TagDelSeries Skip z0 (MarshalMsg_TagDelSeries z [] @ rest) = Inr (z, rest)"
proof -
  have len: "uint32_len (Paths z) = length (Paths z)" "length (Paths z) < 2 ^ 32"
    and all: "list_all (\<lambda>s. length s < 2 ^ 32) (Paths z)"
    using assms by (simp_all add: valid_TagDelSeries_def uint32_len_def)
  have hdr: "ReadMapHeaderBytes (AppendMapHeader [] 2 @ r) = Inr (Suc (Suc 0), r)" for r
    using ReadMapHeader_Append [of 2 r] by simp
  show ?thesis
    unfolding Marshal_TagDelSeries_eq UnmarshalMsg_TagDelSeries_def len(1)
    by (simp add: hdr ReadMapKey_Append [OF ascii_lengths(1)] ReadMapKey_Append [OF ascii_lengths(2)]
        ReadArrayHeader_Append [OF len(2)]
        read_strings_concat [OF all] ascii_Propagate_neq ReadBool_Append)
qed

lemma read_signed_be_int:
  assumes "0 < n" and "- (2 ^ (8 * n - 1)) \<le> i" and "i < 2 ^ (8 * n - 1)"
  shows "read_signed n (be_int n i @ rest) = Inr (word_of_int i, rest)"
  by (simp add: read_signed_def be_sint_int [OF assms])

lemma ReadInt64_fixint:
  "unat lead < 128 \<Longrightarrow> ReadInt64Bytes (lead # r) = Inr (word_of_int (int (unat lead)), r)"
  by (simp add: ReadInt64Bytes_def)

lemma ReadInt64_nfixint:
  "224 \<le> unat lead \<Longrightarrow>
   ReadInt64Bytes (lead # r) = Inr (word_of_int (int (unat lead) - 256), r)"
  by (simp add: ReadInt64Bytes_def)

lemma ReadInt64_signed:
  "ReadInt64Bytes (byte_of_nat 208 # r) = read_signed 1 r"
  "ReadInt64Bytes (byte_of_nat 209 # r) = read_signed 2 r"
  "ReadInt64Bytes (byte_of_nat 210 # r) = read_signed 4 r"
  "ReadInt64Bytes (byte_of_nat 211 # r) = read_signed 8 r"
  by (simp_all add: ReadInt64Bytes_def unat_byte_of_nat)

lemma ReadInt64_Append: "ReadInt64Bytes (AppendInt64 [] w @ rest) = Inr (w, rest)"
proof -
  define i where "i = sint w"
  have w: "word_of_int i = w" by (simp add: i_def)
  have lo: "- (2 ^ 63) \<le> i" using sint_ge [of w] by (simp add: i_def)
  have hi: "i < 2 ^ 63" using sint_lt [of w] by (simp add: i_def)
  have enc: "AppendInt64 [] w =
     (if 0 \<le> i then
        (if i \<le> 127 then [byte_of_nat (nat i)]
         else if i \<le> 32767 then byte_of_nat 209 # be_int 2 i
         else if i \<le> 2147483647 then byte_of_nat 210 # be_int 4 i
         else byte_of_nat 211 # be_int 8 i)
      else
        (if - 32 \<le> i then [byte_of_nat (nat (256 + i))]
         else if - 128 \<le> i then byte_of_nat 208 # be_int 1 i
         else if - 32768 \<le> i then byte_of_nat 209 # be_int 2 i
         else if - 2147483648 \<le> i then byte_of_nat 210 # be_int 4 i
         else byte_of_nat 211 # be_int 8 i))"
    by (simp add: AppendInt64_def Let_def i_def)
  consider "0 \<le> i" "i \<le> 127" | "127 < i" "i \<le> 32767" | "32767 < i" "i \<le> 2147483647"
    | "2147483647 < i" | "i < 0" "- 32 \<le> i" | "i < - 32" "- 128 \<le> i"
    | "i < - 128" "- 32768 \<le> i" | "i < - 32768" "- 2147483648 \<le> i" | "i < - 2147483648"
    by linarith
  then show ?thesis
  proof cases
    case 1
    then have e: "AppendInt64 [] w = [byte_of_nat (nat i)]" by (simp add: enc)
    have u: "unat (byte_of_nat (nat i)) = nat i" using 1 by (simp add: unat_byte_of_nat)
    have "ReadInt64Bytes (byte_of_nat (nat i) # rest) = Inr (word_of_int (int (nat i)), rest)"
      using ReadInt64_fixint [of "byte_of_nat (nat i)" rest] 1 unfolding u by simp
    then show ?thesis unfolding e using 1 w by simp
  next
    case 2
    then have e: "AppendInt64 [] w = byte_of_nat 209 # be_int 2 i" by (simp add: enc)
    have "read_signed 2 (be_int 2 i @ rest) = Inr (word_of_int i, rest)"
      by (rule read_signed_be_int) (use 2 in simp_all)
    then show ?thesis unfolding e using w by (simp add: ReadInt64_signed)
  next
    case 3
    then have e: "AppendInt64 [] w = byte_of_nat 210 # be_int 4 i" by (simp add: enc)
    have "read_signed 4 (be_int 4 i @ rest) = Inr (word_of_int i, rest)"
      by (rule read_signed_be_int) (use 3 in simp_all)
    then show ?thesis unfolding e using w by (simp add: ReadInt64_signed)
  next
    case 4
    then have e: "AppendInt64 [] w = byte_of_nat 211 # be_int 8 i" by (simp add: enc)
    have "read_signed 8 (be_int 8 i @ rest) = Inr (word_of_int i, rest)"
      by (rule read_signed_be_int) (use lo hi in simp_all)
    then show ?thesis unfolding e using w by (simp add: ReadInt64_signed)
  next
    case 5
    then have e: "AppendInt64 [] w = [byte_of_nat (nat (256 + i))]" by (simp add: enc)
    have u: "unat (byte_of_nat (nat (256 + i))) = nat (256 + i)"
      using 5 by (simp add: unat_byte_of_nat)
    have "ReadInt64Bytes (byte_of_nat (nat (256 + i)) # rest) =
            Inr (word_of_int (int (nat (256 + i)) - 256), rest)"
      using ReadInt64_nfixint [of "byte_of_nat (nat (256 + i))" rest] 5 unfolding u by simp
    moreover have "int (nat (256 + i)) - 256 = i" using 5 by simp
    ultimately show ?thesis unfolding e using w by simp
  next
    case 6
    then have e: "AppendInt64 [] w = byte_of_nat 208 # be_int 1 i" by (simp add: enc)
    have "read_signed 1 (be_int 1 i @ rest) = Inr (word_of_int i, rest)"
      by (rule read_signed_be_int) (use 6 in simp_all)
    then show ?thesis unfolding e using w by (simp add: ReadInt64_signed)
  next
    case 7
    then have e: "AppendInt64 [] w = byte_of_nat 209 # be_int 2 i" by (simp add: enc)
    have "read_signed 2 (be_int 2 i @ rest) = Inr (word_of_int i, rest)"
      by (rule read_signed_be_int) (use 7 in simp_all)
    then show ?thesis unfolding e using w by (simp add: ReadInt64_signed)
  next
    case 8
    then have e: "AppendInt64 [] w = byte_of_nat 210 # be_int 4 i" by (simp add: enc)
    have "read_signed 4 (be_int 4 i @ rest) = Inr (word_of_int i, rest)"
      by (rule read_signed_be_int) (use 8 in simp_all)
    then show ?thesis unfolding e using w by (simp add: ReadInt64_signed)
  next
    case 9
    then have e: "AppendInt64 [] w = byte_of_nat 211 # be_int 8 i" by (simp add: enc)
    have "read_signed 8 (be_int 8 i @ rest) = Inr (word_of_int i, rest)"
      by (rule read_signed_be_int) (use lo hi in simp_all)
    then show ?thesis unfolding e using w by (simp add: ReadInt64_signed)
  qed
qed

lemma foldl_enc_peers:
  "foldl (\<lambda>out (k, v). AppendInt64 (AppendString out k) v) b kvs = b @ concat (map enc_peer kvs)"
proof (induction kvs arbitrary: b)
  case Nil
  then show ?case by simp
next
  case (Cons kv kvs)
  obtain k v where kv: "kv = (k, v)" by (cases kv)
  have "AppendInt64 (AppendString b k) v = b @ enc_peer (k, v)"
    using AppendInt64_acc [of "AppendString b k" v] AppendString_acc [of b k]
    by (simp add: enc_peer_def)
  then show ?case using Cons [of "b @ enc_peer (k, v)"] by (simp add: kv)
qed

lemma read_peers_concat:
  "list_all (\<lambda>kv. length (fst kv) < 2 ^ 32) kvs \<Longrightarrow>
   read_peers (length kvs) m (concat (map enc_peer kvs) @ rest) =
     Inr (fold put_peer kvs m, rest)"
proof (induction kvs arbitrary: m)
  case Nil
  then show ?case by simp
next
  case (Cons kv kvs)
  have "read_peers (Suc (length kvs)) m (enc_peer kv @ concat (map enc_peer kvs) @ rest) =
        read_peers (length kvs) (put_peer kv m) (concat (map enc_peer kvs) @ rest)"
    using Cons.prems
    by (simp add: enc_peer_def ReadString_Append ReadInt64_Append put_peer_def)
  then show ?case using Cons by simp
qed

lemma fold_upd_map_of:
  "distinct (map fst kvs) \<Longrightarrow> fold put_peer kvs m = m ++ map_of kvs"
proof (induction kvs arbitrary: m)
  case Nil
  then show ?case by simp
next
  case (Cons kv kvs)
  obtain k v where kv: "kv = (k, v)" by (cases kv)
  have nk: "k \<notin> dom (map_of kvs)" using Cons.prems by (auto simp: kv dom_map_of_conv_image_fst)
  have pk: "put_peer kv m = m(k \<mapsto> v)" by (simp add: put_peer_def kv)
  have d': "distinct (map fst kvs)" using Cons.prems by simp
  have IH: "fold put_peer kvs (put_peer kv m) = put_peer kv m ++ map_of kvs"
    by (rule Cons.IH [OF d'])
  have "fold put_peer (kv # kvs) m = put_peer kv m ++ map_of kvs"
    by (simp only: fold_simps IH)
  also have "\<dots> = m(k \<mapsto> v) ++ map_of kvs" by (simp only: pk)
  also have "\<dots> = (m ++ map_of kvs)(k \<mapsto> v)" using nk by (rule map_add_upd_left)
  also have "\<dots> = m ++ map_of (kv # kvs)" by (simp add: kv)
  finally show ?case .
qed

lemma key_Count: "[0xa5, 0x43, 0x6f, 0x75, 0x6e, 0x74] = AppendString [] (ascii ''Count'')"
  by (simp add: AppendString_def ascii_def byte_of_nat_def)

lemma key_Peers: "[0xa5, 0x50, 0x65, 0x65, 0x72, 0x73] = AppendString [] (ascii ''Peers'')"
  by (simp add: AppendString_def ascii_def byte_of_nat_def)

lemma Marshal_TagDelSeriesResp_eq:
  "MarshalMsg_TagDelSeriesResp kvs z b =
     b @ AppendMapHeader [] 2 @ AppendString [] (ascii ''Count'') @ AppendInt64 [] (Count z) @
     AppendString [] (ascii ''Peers'') @ AppendMapHeader [] (uint32_len kvs) @
     concat (map enc_peer kvs)"
proof -
  have "MarshalMsg_TagDelSeriesResp kvs z b =
     b @ [0x82] @ [0xa5, 0x43, 0x6f, 0x75, 0x6e, 0x74] @ AppendInt64 [] (Count z) @
     [0xa5, 0x50, 0x65, 0x65, 0x72, 0x73] @ AppendMapHeader [] (uint32_len kvs) @
     concat (map enc_peer kvs)"
    unfolding MarshalMsg_TagDelSeriesResp_def Let_def foldl_enc_peers
    by (subst AppendMapHeader_acc, subst AppendInt64_acc) simp
  then show ?thesis
    by (simp only: key_Count key_Peers map_header_2)
qed

lemma ascii_lengths_Resp:
  "length (ascii ''Count'') < 2 ^ 32" "length (ascii ''Peers'') < 2 ^ 32"
  by (simp_all add: ascii_def)

lemma ascii_Peers_neq: "ascii ''Peers'' \<noteq> ascii ''Count''"
  by (simp add: ascii_def)

lemma roundtrip_TagDelSeriesResp:
  assumes "valid_TagDelSeriesResp z" and "range_of kvs (Peers z)"
  shows "UnmarshalMsg_TagDelSeriesResp Skip z0 (MarshalMsg_TagDelSeriesResp kvs z [] @ rest) =
           Inr (z, rest)"
proof -
  have d: "distinct (map fst kvs)" and m: "map_of kvs = Peers z"
    using assms(2) by (simp_all add: range_of_def)
  have dom: "dom (Peers z) = fst ` set kvs"
    unfolding m [symmetric] by (rule dom_map_of_conv_image_fst)
  have "card (dom (Peers z)) = length kvs"
    unfolding dom using d by (metis distinct_card length_map list.set_map)
  then have n: "length kvs < 2 ^ 32" using assms(1) by (simp add: valid_TagDelSeriesResp_def)
  then have len: "uint32_len kvs = length kvs" by (simp add: uint32_len_def)
  have all: "list_all (\<lambda>kv. length (fst kv) < 2 ^ 32) kvs"
    using assms(1) dom by (auto simp: valid_TagDelSeriesResp_def list_all_iff)
  have hdr: "ReadMapHeaderBytes (AppendMapHeader [] 2 @ r) = Inr (Suc (Suc 0), r)" for r
    using ReadMapHeader_Append [of 2 r] by simp
  have pm: "fold put_peer kvs Map.empty = Peers z"
    using fold_upd_map_of [OF d, of Map.empty] m by simp
  show ?thesis
    unfolding Marshal_TagDelSeriesResp_eq UnmarshalMsg_TagDelSeriesResp_def len
    by (simp add: hdr ReadMapKey_Append [OF ascii_lengths_Resp(1)]
        ReadMapKey_Append [OF ascii_lengths_Resp(2)] ReadInt64_Append ascii_Peers_neq
        ReadMapHeader_Append [OF n] read_peers_concat [OF all] pm)
qed

lemma foldl_AppendInt64: "foldl AppendInt64 b vs = b @ concat (map (AppendInt64 []) vs)"
proof (induction vs arbitrary: b)
  case Nil
  then show ?case by simp
next
  case (Cons v vs)
  show ?case
    using Cons [of "AppendInt64 b v"] by (simp add: AppendInt64_acc [of b v])
qed

lemma foldl_enc_intervals:
  "foldl (\<lambda>out iv. foldl AppendInt64 (AppendArrayHeader out (uint32_len iv)) iv) b ivs =
     b @ concat (map enc_interval ivs)"
proof (induction ivs arbitrary: b)
  case Nil
  then show ?case by simp
next
  case (Cons iv ivs)
  have "foldl AppendInt64 (AppendArrayHeader b (uint32_len iv)) iv = b @ enc_interval iv"
    using AppendArrayHeader_acc [of b "uint32_len iv"]
    by (simp add: foldl_AppendInt64 enc_interval_def)
  then show ?case using Cons [of "b @ enc_interval iv"] by simp
qed

lemma read_int64s_concat:
  "read_int64s (length vs) (concat (map (AppendInt64 []) vs) @ rest) = Inr (vs, rest)"
  by (induction vs) (simp_all add: ReadInt64_Append)

lemma read_intervals_concat:
  "list_all (\<lambda>iv. length iv < 2 ^ 32) ivs \<Longrightarrow>
   read_intervals (length ivs) (concat (map enc_interval ivs) @ rest) = Inr (ivs, rest)"
proof (induction ivs)
  case Nil
  then show ?case by simp
next
  case (Cons iv ivs)
  have n: "length iv < 2 ^ 32" using Cons.prems by simp
  then have len: "uint32_len iv = length iv" by (simp add: uint32_len_def)
  have "read_intervals (Suc (length ivs)) (enc_interval iv @ concat (map enc_interval ivs) @ rest) =
        (case read_intervals (length ivs) (concat (map enc_interval ivs) @ rest) of
           Inl e \<Rightarrow> Inl e | Inr (ivs', r) \<Rightarrow> Inr (iv # ivs', r))"
    by (simp add: enc_interval_def len ReadArrayHeader_Append [OF n] read_int64s_concat)
  then show ?case using Cons by simp
qed

lemma key_path: "[0xa4, 0x70, 0x61, 0x74, 0x68] = AppendString [] (ascii ''path'')"
  by (simp add: AppendString_def ascii_def byte_of_nat_def)

lemma key_isLeaf: "[0xa6, 0x69, 0x73, 0x4c, 0x65, 0x61, 0x66] = AppendString [] (ascii ''isLeaf'')"
  by (simp add: AppendString_def ascii_def byte_of_nat_def)

lemma key_intervals:
  "[0xa9, 0x69, 0x6e, 0x74, 0x65, 0x72, 0x76, 0x61, 0x6c, 0x73] = AppendString [] (ascii ''intervals'')"
  by (simp add: AppendString_def ascii_def byte_of_nat_def)

lemma Marshal_SeriesPickleItem_eq:
  "MarshalMsg_SeriesPickleItem z b =
     b @ AppendMapHeader [] 3 @ AppendString [] (ascii ''path'') @ AppendString [] (Path z) @
     AppendString [] (ascii ''isLeaf'') @ AppendBool [] (IsLeaf z) @
     AppendString [] (ascii ''intervals'') @ AppendArrayHeader [] (uint32_len (Intervals z)) @
     concat (map enc_interval (Intervals z))"
proof -
  have "MarshalMsg_SeriesPickleItem z b =
     b @ [0x83] @ [0xa4, 0x70, 0x61, 0x74, 0x68] @ AppendString [] (Path z) @
     [0xa6, 0x69, 0x73, 0x4c, 0x65, 0x61, 0x66] @ AppendBool [] (IsLeaf z) @
     [0xa9, 0x69, 0x6e, 0x74, 0x65, 0x72, 0x76, 0x61, 0x6c, 0x73] @
     AppendArrayHeader [] (uint32_len (Intervals z)) @ concat (map enc_interval (Intervals z))"
    unfolding MarshalMsg_SeriesPickleItem_def Let_def foldl_enc_intervals
    by (subst AppendArrayHeader_acc, subst AppendBool_acc, subst AppendString_acc) simp
  then show ?thesis
    by (simp only: key_path key_isLeaf key_intervals map_header_3)
qed

lemma ascii_lengths_Item:
  "length (ascii ''path'') < 2 ^ 32" "length (ascii ''isLeaf'') < 2 ^ 32"
  "length (ascii ''intervals'') < 2 ^ 32"
  by (simp_all add: ascii_def)

lemma ascii_Item_neq:
  "ascii ''isLeaf'' \<noteq> ascii ''path''" "ascii ''intervals'' \<noteq> ascii ''path''"
  "ascii ''intervals'' \<noteq> ascii ''isLeaf''"
  by (simp_all add: ascii_def)

lemma roundtrip_SeriesPickleItem:
  assumes "valid_SeriesPickleItem z"
  shows "UnmarshalMsg_SeriesPickleItem Skip z0 (MarshalMsg_SeriesPickleItem z [] @ rest) =
           Inr (z, rest)"
proof -
  have p: "length (Path z) < 2 ^ 32" and n: "length (Intervals z) < 2 ^ 32"
    and all: "list_all (\<lambda>iv. length iv < 2 ^ 32) (Intervals z)"
    using assms by (simp_all add: valid_SeriesPickleItem_def)
  have len: "uint32_len (Intervals z) = length (Intervals z)" using n by (simp add: uint32_len_def)
  have hdr: "ReadMapHeaderBytes (AppendMapHeader [] 3 @ r) = Inr (Suc (Suc (Suc 0)), r)" for r
    using ReadMapHeader_Append [of 3 r] by (simp add: numeral_3_eq_3)
  show ?thesis
    unfolding Marshal_SeriesPickleItem_eq UnmarshalMsg_SeriesPickleItem_def len
    by (simp add: hdr ReadMapKey_Append [OF ascii_lengths_Item(1)]
        ReadMapKey_Append [OF ascii_lengths_Item(2)] ReadMapKey_Append [OF ascii_lengths_Item(3)]
        ReadString_Append [OF p] ReadBool_Append ascii_Item_neq
        ReadArrayHeader_Append [OF n] read_intervals_concat [OF all])
qed

lemma MarshalMsg_SeriesPickleItem_acc:
  "MarshalMsg_SeriesPickleItem z b = b @ MarshalMsg_SeriesPickleItem z []"
  by (simp add: Marshal_SeriesPickleItem_eq)

lemma foldl_Marshal_items:
  "foldl (\<lambda>out item. MarshalMsg_SeriesPickleItem item out) b items =
     b @ concat (map (\<lambda>item. MarshalMsg_SeriesPickleItem item []) items)"
proof (induction items arbitrary: b)
  case Nil
  then show ?case by simp
next
  case (Cons item items)
  show ?case
    using Cons [of "MarshalMsg_SeriesPickleItem item b"]
    by (simp add: MarshalMsg_SeriesPickleItem_acc [of item b])
qed

lemma read_items_concat:
  "list_all valid_SeriesPickleItem items \<Longrightarrow>
   read_items Skip slots i (length items)
     (concat (map (\<lambda>item. MarshalMsg_SeriesPickleItem item []) items) @ rest) = Inr (items, rest)"
proof (induction items arbitrary: i)
  case Nil
  then show ?case by simp
next
  case (Cons item items)
  have v: "valid_SeriesPickleItem item" using Cons.prems by simp
  show ?case
    using Cons by (simp add: roundtrip_SeriesPickleItem [OF v])
qed

lemma roundtrip_SeriesPickle:
  assumes "valid_SeriesPickle z"
  shows "UnmarshalMsg_SeriesPickle Skip slots (MarshalMsg_SeriesPickle z [] @ rest) = Inr (z, rest)"
proof -
  have n: "length z < 2 ^ 32" and all: "list_all valid_SeriesPickleItem z"
    using assms by (simp_all add: valid_SeriesPickle_def)
  have len: "uint32_len z = length z" using n by (simp add: uint32_len_def)
  show ?thesis
    unfolding MarshalMsg_SeriesPickle_def UnmarshalMsg_SeriesPickle_def foldl_Marshal_items len
    by (simp add: ReadArrayHeader_Append [OF n] read_items_concat [OF all])
qed

text \<open>
  C2. For every valid envelope of each of the four types (tag-deletion request,
  tag-deletion response, series-metadata entry, series-metadata collection), decoding the
  bytes produced by encoding it gives back the envelope (and leaves untouched whatever
  bytes follow). This holds for every previous content of the receiver, for every order
  in which the encoder visits the entries of the \<open>Peers\<close> map, and for every behaviour of
  \<^verbatim>\<open>msgp.Skip\<close>. Valid means that the lengths fit the 32-bit headers.
\<close>

theorem envelope_roundtrip:
  "(valid_TagDelSeries x1 \<longrightarrow>
      UnmarshalMsg_TagDelSeries Skip z1 (MarshalMsg_TagDelSeries x1 [] @ rest) = Inr (x1, rest)) \<and>
   (valid_TagDelSeriesResp x2 \<and> range_of range_Peers (Peers x2) \<longrightarrow>
      UnmarshalMsg_TagDelSeriesResp Skip z2
        (MarshalMsg_TagDelSeriesResp range_Peers x2 [] @ rest) = Inr (x2, rest)) \<and>
   (valid_SeriesPickleItem x3 \<longrightarrow>
      UnmarshalMsg_SeriesPickleItem Skip z3 (MarshalMsg_SeriesPickleItem x3 [] @ rest) =
        Inr (x3, rest)) \<and>
   (valid_SeriesPickle x4 \<longrightarrow>
      UnmarshalMsg_SeriesPickle Skip slots (MarshalMsg_SeriesPickle x4 [] @ rest) = Inr (x4, rest))"
  using roundtrip_TagDelSeries [of x1 Skip z1 rest]
    roundtrip_TagDelSeriesResp [of x2 range_Peers Skip z2 rest]
    roundtrip_SeriesPickleItem [of x3 Skip z3 rest]
    roundtrip_SeriesPickle [of x4 Skip slots rest]
  by blast

lemma valid_examples:
  "valid_TagDelSeries ex_TagDelSeries"
  "valid_TagDelSeriesResp ex_TagDelSeriesResp"
  "range_of [(ascii ''p2'', 70000), (ascii ''p1'', - 5)] (Peers ex_TagDelSeriesResp)"
  "valid_SeriesPickleItem ex_SeriesPickleItem"
  "valid_SeriesPickle [ex_SeriesPickleItem, ex_SeriesPickleItem\<lparr>IsLeaf := False\<rparr>]"
  by (simp_all add: valid_TagDelSeries_def valid_TagDelSeriesResp_def range_of_def
      valid_SeriesPickleItem_def valid_SeriesPickle_def ex_TagDelSeries_def
      ex_TagDelSeriesResp_def ex_SeriesPickleItem_def ascii_def)

theorem envelope_roundtrip_witness:
  "UnmarshalMsg_TagDelSeries no_Skip \<lparr>Paths = [], Propagate = False\<rparr>
     (MarshalMsg_TagDelSeries ex_TagDelSeries []) = Inr (ex_TagDelSeries, []) \<and>
   UnmarshalMsg_TagDelSeriesResp no_Skip \<lparr>Count = 0, Peers = Map.empty\<rparr>
     (MarshalMsg_TagDelSeriesResp [(ascii ''p2'', 70000), (ascii ''p1'', - 5)]
        ex_TagDelSeriesResp []) = Inr (ex_TagDelSeriesResp, []) \<and>
   UnmarshalMsg_SeriesPickleItem no_Skip \<lparr>Path = [], IsLeaf = False, Intervals = []\<rparr>
     (MarshalMsg_SeriesPickleItem ex_SeriesPickleItem []) = Inr (ex_SeriesPickleItem, []) \<and>
   UnmarshalMsg_SeriesPickle no_Skip (\<lambda>i. \<lparr>Path = [], IsLeaf = False, Intervals = []\<rparr>)
     (MarshalMsg_SeriesPickle [ex_SeriesPickleItem, ex_SeriesPickleItem\<lparr>IsLeaf := False\<rparr>] []) =
     Inr ([ex_SeriesPickleItem, ex_SeriesPickleItem\<lparr>IsLeaf := False\<rparr>], [])"
  using envelope_roundtrip [of ex_TagDelSeries no_Skip "\<lparr>Paths = [], Propagate = False\<rparr>" "[]"
      ex_TagDelSeriesResp "[(ascii ''p2'', 70000), (ascii ''p1'', - 5)]"
      "\<lparr>Count = 0, Peers = Map.empty\<rparr>"
      ex_SeriesPickleItem "\<lparr>Path = [], IsLeaf = False, Intervals = []\<rparr>"
      "[ex_SeriesPickleItem, ex_SeriesPickleItem\<lparr>IsLeaf := False\<rparr>]"
      "\<lambda>i. \<lparr>Path = [], IsLeaf = False, Intervals = []\<rparr>"]
    valid_examples
  by simp

text \<open>The bytes of a small tag-deletion request, as the encoder writes them.\<close>

lemma ex_bytes:
  "MarshalMsg_TagDelSeries \<lparr>Paths = [ascii ''c''], Propagate = True\<rparr> [] =
     [0x82, 0xa5, 0x50, 0x61, 0x74, 0x68, 0x73, 0x91, 0xa1, 0x63,
      0xa9, 0x50, 0x72, 0x6f, 0x70, 0x61, 0x67, 0x61, 0x74, 0x65, 0xc3]"
  by (simp add: MarshalMsg_TagDelSeries_def uint32_len_def AppendArrayHeader_def AppendString_def
      AppendBool_def ascii_def byte_of_nat_def)

end
